theory Spec2Isabelle
  imports Complex_Main
begin

section \<open>Data model\<close>

text \<open>
  The solver classes are templates over a \<open>Value\<close> and a \<open>Cost\<close> type. Both are taken
  here as mathematical integers (\<open>int\<close>): the source handles no overflow, so the model
  has none. The \<open>double\<close> of \<open>getRatio\<close> and \<open>computeUpperBound\<close> is taken as an exact
  real: rounding and overflow to infinity are not modelled. Positions in vectors and on
  the stacks (C++ \<open>int\<close>, \<open>size_t\<close>) are natural numbers; they are never decremented.

  Undefined behaviour of the C++ code is a value of type \<open>error\<close>: reading a vector
  outside its bounds, and dividing an integer by zero.
\<close>

datatype error = OutOfBounds | DivisionByZero

text \<open>\<open>Instance::Item\<close>: the fields \<open>value\<close> and \<open>cost\<close>, built by \<open>Item(v, c)\<close>.\<close>

datatype Item = Item (item_value: int) (item_cost: int)

text \<open>\<open>std::numeric_limits<double>::max()\<close>, the largest finite double.\<close>

definition DBL_MAX :: real where
  "DBL_MAX = 2 ^ 1024 - 2 ^ 971"

definition getRatio :: "Item \<Rightarrow> real" where
  "getRatio it =
     (if item_cost it = 0 then DBL_MAX
      else real_of_int (item_value it) / real_of_int (item_cost it))"

text \<open>\<open>Item::operator<\<close>: an item is smaller when its ratio is larger.\<close>

definition item_less :: "Item \<Rightarrow> Item \<Rightarrow> bool" where
  "item_less a b = (getRatio a > getRatio b)"

record Instance =
  budget :: int
  items :: "Item list"

definition getBudget :: "Instance \<Rightarrow> int" where
  "getBudget inst = budget inst"

definition getItems :: "Instance \<Rightarrow> Item list" where
  "getItems inst = items inst"

definition itemCount :: "Instance \<Rightarrow> nat" where
  "itemCount inst = length (items inst)"

text \<open>The precondition of the specification: budget, values and costs are not negative.\<close>

definition non_negative :: "Instance \<Rightarrow> bool" where
  "non_negative inst =
     (0 \<le> budget inst \<and> list_all (\<lambda>it. 0 \<le> item_value it \<and> 0 \<le> item_cost it) (items inst))"

section \<open>The 0/1 variant\<close>

subsection \<open>Solution\<close>

text \<open>
  \<open>Knapstack::Solution\<close> holds a reference to its instance and the vector \<open>_taken\<close>,
  which the constructor sizes to \<open>itemCount\<close> and no method resizes.
\<close>

record Solution =
  sol_instance :: Instance
  taken :: "bool list"

definition new_Solution :: "Instance \<Rightarrow> Solution" where
  "new_Solution inst = \<lparr>sol_instance = inst, taken = replicate (itemCount inst) False\<rparr>"

definition isTaken :: "Solution \<Rightarrow> nat \<Rightarrow> bool" where
  "isTaken s i = (taken s ! i)"

text \<open>\<open>add(i)\<close> writes \<open>_taken[i] = true\<close>; outside the vector that is undefined.\<close>

definition add :: "Solution \<Rightarrow> nat \<Rightarrow> error + Solution" where
  "add s i = (if i < length (taken s) then Inr (s\<lparr>taken := (taken s)[i := True]\<rparr>)
              else Inl OutOfBounds)"

definition getValue :: "Solution \<Rightarrow> int" where
  "getValue s = (\<Sum>i \<leftarrow> [0..<itemCount (sol_instance s)].
                   if taken s ! i then item_value (items (sol_instance s) ! i) else 0)"

definition getCost :: "Solution \<Rightarrow> int" where
  "getCost s = (\<Sum>i \<leftarrow> [0..<itemCount (sol_instance s)].
                  if taken s ! i then item_cost (items (sol_instance s) ! i) else 0)"

subsection \<open>The upper bound\<close>

function computeUpperBound :: "Item list \<Rightarrow> nat \<Rightarrow> int \<Rightarrow> int \<Rightarrow> real" where
  "computeUpperBound sorted_items depth bound_value bound_budget_left =
     (if depth < length sorted_items then
        (if bound_budget_left \<le> item_cost (sorted_items ! depth) then
           real_of_int bound_value
             + real_of_int bound_budget_left * getRatio (sorted_items ! depth)
         else computeUpperBound sorted_items (depth + 1)
                (bound_value + item_value (sorted_items ! depth))
                (bound_budget_left - item_cost (sorted_items ! depth)))
      else real_of_int bound_value)"
  by pat_completeness auto
termination
  by (relation "measure (\<lambda>(sorted_items, depth, _, _). length sorted_items - depth)") auto

declare computeUpperBound.simps [simp del]

subsection \<open>The search\<close>

text \<open>
  \<open>iterative_bnb\<close> is a \<open>while\<close> loop around a \<open>for\<close> loop, entered through
  \<open>goto begin\<close> and left for the \<open>while\<close> test through \<open>goto backtrack\<close>. The model
  has one equation per program point:
  \<^item> \<open>BEGIN\<close>: the label \<open>begin\<close>, the body of the \<open>for\<close> loop after its two tests,
    followed by \<open>++depth\<close>;
  \<^item> \<open>FOR\<close>: the test \<open>depth < nb_items\<close> of the \<open>for\<close> loop, and after the loop the
    comparison with \<open>best_value\<close>;
  \<^item> \<open>BACKTRACK\<close>: the test of the \<open>while\<close> loop, and the pop that follows it.
  A stack is a list with its top first.
\<close>

datatype label = BEGIN | FOR | BACKTRACK

fun stack_weight :: "nat \<Rightarrow> nat list \<Rightarrow> nat" where
  "stack_weight n [] = 0"
| "stack_weight n (d # ds) = 2 ^ (n - Suc d) + stack_weight n ds"

fun bnb_rank :: "nat \<Rightarrow> label \<Rightarrow> nat \<Rightarrow> nat list \<Rightarrow> nat" where
  "bnb_rank n BACKTRACK depth st = stack_weight n st + 1"
| "bnb_rank n pc depth st = stack_weight n st + 2 ^ (n - depth)"

fun bnb_phase :: "nat \<Rightarrow> label \<Rightarrow> nat \<Rightarrow> nat" where
  "bnb_phase n BACKTRACK depth = 0"
| "bnb_phase n BEGIN depth = 2 * (n - depth) + 1"
| "bnb_phase n FOR depth = 2 * (n - depth) + 2"

function bnb_loop ::
  "Item list \<Rightarrow> label \<Rightarrow> nat \<Rightarrow> int \<Rightarrow> int \<Rightarrow> int \<Rightarrow> nat list \<Rightarrow> nat list \<Rightarrow> error + nat list"
where
  "bnb_loop sorted_items BEGIN depth val budget_left best_value stack best_stack =
     (if depth < length sorted_items then
        bnb_loop sorted_items FOR (depth + 1)
          (val + item_value (sorted_items ! depth))
          (budget_left - item_cost (sorted_items ! depth))
          best_value (depth # stack) best_stack
      else Inl OutOfBounds)"
| "bnb_loop sorted_items FOR depth val budget_left best_value stack best_stack =
     (if depth < length sorted_items then
        (if budget_left < item_cost (sorted_items ! depth) then
           bnb_loop sorted_items FOR (depth + 1) val budget_left best_value stack best_stack
         else if computeUpperBound sorted_items depth val budget_left \<le> real_of_int best_value then
           bnb_loop sorted_items BACKTRACK depth val budget_left best_value stack best_stack
         else bnb_loop sorted_items BEGIN depth val budget_left best_value stack best_stack)
      else if val \<le> best_value then
        bnb_loop sorted_items BACKTRACK depth val budget_left best_value stack best_stack
      else bnb_loop sorted_items BACKTRACK depth val budget_left val stack stack)"
| "bnb_loop sorted_items BACKTRACK depth val budget_left best_value stack best_stack =
     (case stack of
        [] \<Rightarrow> Inr best_stack
      | tp # rest \<Rightarrow>
          (if tp < length sorted_items then
             bnb_loop sorted_items FOR (tp + 1)
               (val - item_value (sorted_items ! tp))
               (budget_left + item_cost (sorted_items ! tp))
               best_value rest best_stack
           else Inl OutOfBounds))"
  by pat_completeness auto

termination
proof (relation "measures [\<lambda>(its, pc, depth, _, _, _, st, _). bnb_rank (length its) pc depth st,
                          \<lambda>(its, pc, depth, _, _, _, st, _). bnb_phase (length its) pc depth]",
       goal_cases)
  case 1
  show ?case by simp
next
  case (2 sorted_items depth val budget_left best_value stack best_stack)
  then have "length sorted_items - depth = Suc (length sorted_items - Suc depth)" by simp
  then show ?case by simp
next
  case (3 sorted_items depth val budget_left best_value stack best_stack)
  then have "length sorted_items - depth = Suc (length sorted_items - Suc depth)" by simp
  then show ?case by simp
next
  case (4 sorted_items depth val budget_left best_value stack best_stack)
  then have "length sorted_items - depth = Suc (length sorted_items - Suc depth)" by simp
  moreover have "Suc 0 < 2 * 2 ^ (length sorted_items - Suc depth)"
  proof -
    have "(1::nat) \<le> 2 ^ (length sorted_items - Suc depth)" by simp
    then show ?thesis by linarith
  qed
  ultimately show ?case by simp
next
  case (5 sorted_items depth val budget_left best_value stack best_stack)
  then show ?case by simp
next
  case (6 sorted_items depth val budget_left best_value stack best_stack)
  then show ?case by simp
next
  case (7 sorted_items depth val budget_left best_value stack best_stack)
  then show ?case by simp
next
  case (8 sorted_items depth val budget_left best_value stack best_stack tp rest)
  then show ?case by simp
qed

declare bnb_loop.simps [simp del]

definition iterative_bnb :: "Item list \<Rightarrow> int \<Rightarrow> error + nat list" where
  "iterative_bnb sorted_items budget_left =
     bnb_loop sorted_items BEGIN 0 0 budget_left 0 [] []"

subsection \<open>Preprocessing and result assembly\<close>

text \<open>
  \<open>solve\<close> zips the items with their indices, removes the pairs whose cost exceeds the
  budget (\<open>ranges::remove_if\<close> keeps the order of the others; both vectors are then cut
  to the new size) and sorts the pairs with \<open>Item::operator<\<close>, that is by descending
  ratio. \<open>ranges::sort\<close> is a library routine; it promises no order between items of
  equal ratio. It is modelled by the insertion sort of the list library on the negated
  ratio, which leaves items of equal ratio in their order (an insertion sort is what
  \<open>ranges::sort\<close> runs on a short range).
\<close>

definition remove_if_too_costly :: "int \<Rightarrow> (Item \<times> nat) list \<Rightarrow> (Item \<times> nat) list" where
  "remove_if_too_costly b zs = filter (\<lambda>r. \<not> item_cost (fst r) > b) zs"

definition sort_zip :: "(Item \<times> nat) list \<Rightarrow> (Item \<times> nat) list" where
  "sort_zip zs = sort_key (\<lambda>p. - getRatio (fst p)) zs"

definition preprocess :: "Instance \<Rightarrow> (Item \<times> nat) list" where
  "preprocess inst =
     sort_zip (remove_if_too_costly (getBudget inst)
       (zip (getItems inst) [0..<itemCount inst]))"

text \<open>The loop that empties \<open>best_stack\<close> into the solution.\<close>

fun assemble :: "nat list \<Rightarrow> nat list \<Rightarrow> Solution \<Rightarrow> error + Solution" where
  "assemble permuted_id [] solution = Inr solution"
| "assemble permuted_id (tp # rest) solution =
     (if tp < length permuted_id then
        (case add solution (permuted_id ! tp) of
           Inl e \<Rightarrow> Inl e
         | Inr solution' \<Rightarrow> assemble permuted_id rest solution')
      else Inl OutOfBounds)"

definition solve :: "Instance \<Rightarrow> error + Solution" where
  "solve inst =
     (let zip_view = preprocess inst;
          sorted_items = map fst zip_view;
          permuted_id = map snd zip_view
      in case iterative_bnb sorted_items (getBudget inst) of
           Inl e \<Rightarrow> Inl e
         | Inr best_stack \<Rightarrow> assemble permuted_id best_stack (new_Solution inst))"

section \<open>The unbounded variant\<close>

subsection \<open>Solution\<close>

record USolution =
  usol_instance :: Instance
  nb_taken :: "int list"

definition new_USolution :: "Instance \<Rightarrow> USolution" where
  "new_USolution inst = \<lparr>usol_instance = inst, nb_taken = replicate (itemCount inst) 0\<rparr>"

definition unbounded_isTaken :: "USolution \<Rightarrow> nat \<Rightarrow> bool" where
  "unbounded_isTaken s i = (nb_taken s ! i > 0)"

text \<open>\<open>set(i, n)\<close> writes \<open>_nb_taken[i] = n\<close>.\<close>

definition set_nb :: "USolution \<Rightarrow> nat \<Rightarrow> int \<Rightarrow> error + USolution" where
  "set_nb s i n = (if i < length (nb_taken s) then Inr (s\<lparr>nb_taken := (nb_taken s)[i := n]\<rparr>)
                   else Inl OutOfBounds)"

definition unbounded_getValue :: "USolution \<Rightarrow> int" where
  "unbounded_getValue s = (\<Sum>i \<leftarrow> [0..<itemCount (usol_instance s)].
                             nb_taken s ! i * item_value (items (usol_instance s) ! i))"

definition unbounded_getCost :: "USolution \<Rightarrow> int" where
  "unbounded_getCost s = (\<Sum>i \<leftarrow> [0..<itemCount (usol_instance s)].
                            nb_taken s ! i * item_cost (items (usol_instance s) ! i))"

subsection \<open>The upper bound\<close>

text \<open>The quotient of two C++ integers: rounded towards zero, undefined for a zero divisor.\<close>

definition cpp_div :: "int \<Rightarrow> int \<Rightarrow> error + int" where
  "cpp_div a b = (if b = 0 then Inl DivisionByZero
                  else Inr (sgn a * sgn b * (\<bar>a\<bar> div \<bar>b\<bar>)))"

function unbounded_computeUpperBound :: "Item list \<Rightarrow> nat \<Rightarrow> int \<Rightarrow> int \<Rightarrow> error + real" where
  "unbounded_computeUpperBound sorted_items depth bound_value bound_budget_left =
     (if depth < length sorted_items then
        (if bound_budget_left \<le> item_cost (sorted_items ! depth) then
           Inr (real_of_int bound_value
                  + real_of_int bound_budget_left * getRatio (sorted_items ! depth))
         else
           (case cpp_div bound_budget_left (item_cost (sorted_items ! depth)) of
              Inl e \<Rightarrow> Inl e
            | Inr nb_take \<Rightarrow>
                unbounded_computeUpperBound sorted_items (depth + 1)
                  (bound_value + nb_take * item_value (sorted_items ! depth))
                  (bound_budget_left - nb_take * item_cost (sorted_items ! depth))))
      else Inr (real_of_int bound_value))"
  by pat_completeness auto
termination
  by (relation "measure (\<lambda>(sorted_items, depth, _, _). length sorted_items - depth)") auto

declare unbounded_computeUpperBound.simps [simp del]

subsection \<open>The search\<close>

text \<open>
  The same three program points as in the 0/1 search. A stack entry is the pair of a
  position and the number of copies taken there. The loop need not end on every input
  (a count of zero on the stack is decremented for ever), so its result is an option:
  \<open>None\<close> is a run that never returns.
\<close>

partial_function (option) unbounded_bnb_loop ::
  "Item list \<Rightarrow> label \<Rightarrow> nat \<Rightarrow> int \<Rightarrow> int \<Rightarrow> int \<Rightarrow> (nat \<times> int) list \<Rightarrow> (nat \<times> int) list
     \<Rightarrow> (error + (nat \<times> int) list) option"
where
  "unbounded_bnb_loop sorted_items pc depth val budget_left best_value stack best_stack =
     (case pc of
        BEGIN \<Rightarrow>
          (if depth < length sorted_items then
             (case cpp_div budget_left (item_cost (sorted_items ! depth)) of
                Inl e \<Rightarrow> Some (Inl e)
              | Inr nb_take \<Rightarrow>
                  unbounded_bnb_loop sorted_items FOR (depth + 1)
                    (val + nb_take * item_value (sorted_items ! depth))
                    (budget_left - nb_take * item_cost (sorted_items ! depth))
                    best_value ((depth, nb_take) # stack) best_stack)
           else Some (Inl OutOfBounds))
      | FOR \<Rightarrow>
          (if depth < length sorted_items then
             (if budget_left < item_cost (sorted_items ! depth) then
                unbounded_bnb_loop sorted_items FOR (depth + 1) val budget_left best_value
                  stack best_stack
              else
                (case unbounded_computeUpperBound sorted_items depth val budget_left of
                   Inl e \<Rightarrow> Some (Inl e)
                 | Inr ub \<Rightarrow>
                     (if ub \<le> real_of_int best_value then
                        unbounded_bnb_loop sorted_items BACKTRACK depth val budget_left
                          best_value stack best_stack
                      else
                        unbounded_bnb_loop sorted_items BEGIN depth val budget_left
                          best_value stack best_stack)))
           else if val \<le> best_value then
             unbounded_bnb_loop sorted_items BACKTRACK depth val budget_left best_value
               stack best_stack
           else
             unbounded_bnb_loop sorted_items BACKTRACK depth val budget_left val stack stack)
      | BACKTRACK \<Rightarrow>
          (case stack of
             [] \<Rightarrow> Some (Inr best_stack)
           | (d, c) # rest \<Rightarrow>
               (if d < length sorted_items then
                  unbounded_bnb_loop sorted_items FOR (d + 1)
                    (val - item_value (sorted_items ! d))
                    (budget_left + item_cost (sorted_items ! d))
                    best_value
                    (if c - 1 = 0 then rest else (d, c - 1) # rest)
                    best_stack
                else Some (Inl OutOfBounds))))"

declare unbounded_bnb_loop.simps [code]

definition unbounded_iterative_bnb ::
  "Item list \<Rightarrow> int \<Rightarrow> (error + (nat \<times> int) list) option" where
  "unbounded_iterative_bnb sorted_items budget_left =
     unbounded_bnb_loop sorted_items BEGIN 0 0 budget_left 0 [] []"

subsection \<open>Result assembly\<close>

fun unbounded_assemble ::
  "nat list \<Rightarrow> (nat \<times> int) list \<Rightarrow> USolution \<Rightarrow> error + USolution" where
  "unbounded_assemble permuted_id [] solution = Inr solution"
| "unbounded_assemble permuted_id (tp # rest) solution =
     (if fst tp < length permuted_id then
        (case set_nb solution (permuted_id ! fst tp) (snd tp) of
           Inl e \<Rightarrow> Inl e
         | Inr solution' \<Rightarrow> unbounded_assemble permuted_id rest solution')
      else Inl OutOfBounds)"

definition unbounded_solve :: "Instance \<Rightarrow> (error + USolution) option" where
  "unbounded_solve inst =
     (let zip_view = preprocess inst;
          sorted_items = map fst zip_view;
          permuted_id = map snd zip_view
      in case unbounded_iterative_bnb sorted_items (getBudget inst) of
           None \<Rightarrow> None
         | Some (Inl e) \<Rightarrow> Some (Inl e)
         | Some (Inr best_stack) \<Rightarrow>
             Some (unbounded_assemble permuted_id best_stack (new_USolution inst)))"

section \<open>Decision stacks and the invariants of the searches\<close>

text \<open>
  The cost of a decision stack, what makes it a feasible selection of the working list
  (positions strictly decreasing from the top, all inside the list, total cost within
  the budget), and the invariant each search keeps at its three program points:
  \<open>budget_left\<close> is the budget minus the cost of the stack and is not negative, the
  stack holds positions below \<open>depth\<close>, and \<open>best_stack\<close> is feasible.
\<close>

definition stack_cost :: "Item list \<Rightarrow> nat list \<Rightarrow> int" where
  "stack_cost its st = (\<Sum>d \<leftarrow> st. item_cost (its ! d))"

definition feasible_stack :: "Item list \<Rightarrow> int \<Rightarrow> nat list \<Rightarrow> bool" where
  "feasible_stack its b st =
     (sorted_wrt (>) st \<and> list_all (\<lambda>d. d < length its) st \<and> stack_cost its st \<le> b)"

definition bnb_inv :: "Item list \<Rightarrow> int \<Rightarrow> label \<Rightarrow> nat \<Rightarrow> int \<Rightarrow> nat list \<Rightarrow> nat list \<Rightarrow> bool" where
  "bnb_inv its b pc depth budget_left stack best_stack =
     (list_all (\<lambda>it. 0 \<le> item_cost it) its \<and>
      sorted_wrt (>) stack \<and> list_all (\<lambda>d. d < length its) stack \<and>
      budget_left = b - stack_cost its stack \<and>
      (case pc of
         BEGIN \<Rightarrow> list_all (\<lambda>d. d < depth) stack \<and> depth < length its
                    \<and> item_cost (its ! depth) \<le> budget_left
       | FOR \<Rightarrow> list_all (\<lambda>d. d < depth) stack \<and> 0 \<le> budget_left
       | BACKTRACK \<Rightarrow> 0 \<le> budget_left) \<and>
      feasible_stack its b best_stack)"

definition unbounded_stack_cost :: "Item list \<Rightarrow> (nat \<times> int) list \<Rightarrow> int" where
  "unbounded_stack_cost its st = (\<Sum>p \<leftarrow> st. snd p * item_cost (its ! fst p))"

definition unbounded_feasible_stack :: "Item list \<Rightarrow> int \<Rightarrow> (nat \<times> int) list \<Rightarrow> bool" where
  "unbounded_feasible_stack its b st =
     (sorted_wrt (>) (map fst st) \<and> list_all (\<lambda>p. fst p < length its) st
      \<and> unbounded_stack_cost its st \<le> b)"

definition unbounded_bnb_inv ::
  "Item list \<Rightarrow> int \<Rightarrow> label \<Rightarrow> nat \<Rightarrow> int \<Rightarrow> (nat \<times> int) list \<Rightarrow> (nat \<times> int) list \<Rightarrow> bool" where
  "unbounded_bnb_inv its b pc depth budget_left stack best_stack =
     (list_all (\<lambda>it. 0 \<le> item_cost it) its \<and>
      sorted_wrt (>) (map fst stack) \<and> list_all (\<lambda>p. fst p < length its) stack \<and>
      budget_left = b - unbounded_stack_cost its stack \<and> 0 \<le> budget_left \<and>
      (case pc of
         BEGIN \<Rightarrow> list_all (\<lambda>p. fst p < depth) stack
       | FOR \<Rightarrow> list_all (\<lambda>p. fst p < depth) stack
       | BACKTRACK \<Rightarrow> True) \<and>
      unbounded_feasible_stack its b best_stack)"

definition stack_value :: "Item list \<Rightarrow> nat list \<Rightarrow> int" where
  "stack_value its st = (\<Sum>d \<leftarrow> st. item_value (its ! d))"

definition unbounded_stack_value :: "Item list \<Rightarrow> (nat \<times> int) list \<Rightarrow> int" where
  "unbounded_stack_value its st = (\<Sum>p \<leftarrow> st. snd p * item_value (its ! fst p))"

text \<open>The order \<open>ranges::sort\<close> establishes: no item is smaller than one before it.\<close>

definition sorted_by_ratio :: "Item list \<Rightarrow> bool" where
  "sorted_by_ratio its = sorted_wrt (\<lambda>a b. \<not> item_less b a) its"

text \<open>
  The ratio as the specification words it, for comparison with \<open>getRatio\<close>: a double is
  a finite number or positive infinity.
\<close>

datatype double_value = Finite real | PlusInfinity

definition spec_ratio :: "Item \<Rightarrow> double_value" where
  "spec_ratio it =
     (if item_cost it = 0 then PlusInfinity
      else Finite (real_of_int (item_value it) / real_of_int (item_cost it)))"

text \<open>
  For the termination of the unbounded search: stack and position are read as a number
  in base \<open>R\<close> (one more than any count can be), which every step back decreases and
  no step forward increases. The search is shown to return under the invariant extended
  by: every cost is positive, every count on the stack is at least 1, and at \<open>begin\<close>
  the item at \<open>depth\<close> fits.
\<close>

fun unbounded_stack_weight :: "nat \<Rightarrow> nat \<Rightarrow> (nat \<times> int) list \<Rightarrow> nat" where
  "unbounded_stack_weight R n [] = 0"
| "unbounded_stack_weight R n (p # st) =
     nat (snd p) * R ^ (n - Suc (fst p)) + unbounded_stack_weight R n st"

fun unbounded_rank :: "nat \<Rightarrow> nat \<Rightarrow> label \<Rightarrow> nat \<Rightarrow> (nat \<times> int) list \<Rightarrow> nat" where
  "unbounded_rank R n BACKTRACK depth st = unbounded_stack_weight R n st + 1"
| "unbounded_rank R n pc depth st = unbounded_stack_weight R n st + R ^ (n - depth)"

definition unbounded_bnb_term_inv ::
  "Item list \<Rightarrow> int \<Rightarrow> label \<Rightarrow> nat \<Rightarrow> int \<Rightarrow> (nat \<times> int) list \<Rightarrow> (nat \<times> int) list \<Rightarrow> bool" where
  "unbounded_bnb_term_inv its b pc depth budget_left stack best_stack =
     (unbounded_bnb_inv its b pc depth budget_left stack best_stack \<and>
      list_all (\<lambda>it. 0 < item_cost it) its \<and>
      list_all (\<lambda>p. 1 \<le> snd p) stack \<and>
      (pc = BEGIN \<longrightarrow> depth < length its \<and> item_cost (its ! depth) \<le> budget_left))"

section \<open>Proofs\<close>

lemma stack_cost_Nil [simp]: "stack_cost its [] = 0"
  by (simp add: stack_cost_def)

lemma stack_cost_Cons [simp]: "stack_cost its (d # st) = item_cost (its ! d) + stack_cost its st"
  by (simp add: stack_cost_def)

lemma cost_nth_nonneg: "list_all (\<lambda>it. 0 \<le> item_cost it) its \<Longrightarrow> d < length its \<Longrightarrow> 0 \<le> item_cost (its ! d)"
  by (simp add: list_all_length)

lemma bnb_inv_begin:
  assumes "bnb_inv its b BEGIN depth budget_left stack best_stack"
  shows "depth < length its"
    and "bnb_inv its b FOR (depth + 1) (budget_left - item_cost (its ! depth)) (depth # stack) best_stack"
  using assms by (auto simp: bnb_inv_def list_all_iff)

lemma bnb_inv_skip:
  assumes "bnb_inv its b FOR depth budget_left stack best_stack"
  shows "bnb_inv its b FOR (depth + 1) budget_left stack best_stack"
  using assms by (auto simp: bnb_inv_def list_all_iff)

lemma bnb_inv_prune:
  assumes "bnb_inv its b FOR depth budget_left stack best_stack"
  shows "bnb_inv its b BACKTRACK depth' budget_left stack best_stack"
  using assms by (auto simp: bnb_inv_def list_all_iff)

lemma bnb_inv_take:
  assumes "bnb_inv its b FOR depth budget_left stack best_stack"
    and "depth < length its" and "\<not> budget_left < item_cost (its ! depth)"
  shows "bnb_inv its b BEGIN depth budget_left stack best_stack"
  using assms by (auto simp: bnb_inv_def list_all_iff)

lemma bnb_inv_record:
  assumes "bnb_inv its b FOR depth budget_left stack best_stack"
  shows "bnb_inv its b BACKTRACK depth' budget_left stack stack"
  using assms by (auto simp: bnb_inv_def feasible_stack_def list_all_iff)

lemma bnb_inv_pop:
  assumes "bnb_inv its b BACKTRACK depth budget_left (tp # rest) best_stack"
  shows "tp < length its"
    and "bnb_inv its b FOR (tp + 1) (budget_left + item_cost (its ! tp)) rest best_stack"
  using assms by (auto simp: bnb_inv_def list_all_iff dest: cost_nth_nonneg[rotated] )

lemma bnb_inv_done:
  assumes "bnb_inv its b pc depth budget_left stack best_stack"
  shows "feasible_stack its b best_stack"
  using assms by (simp add: bnb_inv_def)

lemma bnb_loop_feasible:
  "bnb_inv its b pc depth budget_left stack best_stack \<Longrightarrow>
   \<exists>r. bnb_loop its pc depth val budget_left best_value stack best_stack = Inr r
       \<and> feasible_stack its b r"
proof (induction its pc depth val budget_left best_value stack best_stack
       rule: bnb_loop.induct)
  case (1 sorted_items depth val budget_left best_value stack best_stack)
  from bnb_inv_begin[OF "1.prems"] "1.IH" show ?case
    by (simp add: bnb_loop.simps)
next
  case (2 sorted_items depth val budget_left best_value stack best_stack)
  note inv = "2.prems"
  show ?case
  proof (cases "depth < length sorted_items")
    case True
    show ?thesis
    proof (cases "budget_left < item_cost (sorted_items ! depth)")
      case skip: True
      with True "2.IH"(1) bnb_inv_skip[OF inv] show ?thesis
        by (simp add: bnb_loop.simps)
    next
      case fits: False
      show ?thesis
      proof (cases "computeUpperBound sorted_items depth val budget_left \<le> real_of_int best_value")
        case True
        with \<open>depth < length sorted_items\<close> fits "2.IH"(2) bnb_inv_prune[OF inv] show ?thesis
          by (simp add: bnb_loop.simps)
      next
        case False
        with \<open>depth < length sorted_items\<close> fits "2.IH"(3) bnb_inv_take[OF inv] show ?thesis
          by (simp add: bnb_loop.simps)
      qed
    qed
  next
    case False
    show ?thesis
    proof (cases "val \<le> best_value")
      case True
      with False "2.IH"(4) bnb_inv_prune[OF inv] show ?thesis
        by (simp add: bnb_loop.simps)
    next
      case nb: False
      with False "2.IH"(5) bnb_inv_record[OF inv] show ?thesis
        by (simp add: bnb_loop.simps)
    qed
  qed
next
  case (3 sorted_items depth val budget_left best_value stack best_stack)
  show ?case
  proof (cases stack)
    case Nil
    with bnb_inv_done[OF "3.prems"] show ?thesis
      by (simp add: bnb_loop.simps)
  next
    case (Cons tp rest)
    with bnb_inv_pop[of sorted_items b depth budget_left tp rest best_stack] "3.prems" "3.IH"
    show ?thesis
      by (simp add: bnb_loop.simps)
  qed
qed

lemma iterative_bnb_feasible:
  assumes "its \<noteq> []" and "list_all (\<lambda>it. 0 \<le> item_cost it) its"
    and "list_all (\<lambda>it. item_cost it \<le> b) its" and "0 \<le> b"
  shows "\<exists>r. iterative_bnb its b = Inr r \<and> feasible_stack its b r"
proof -
  from assms have "bnb_inv its b BEGIN 0 b [] []"
    by (cases its) (simp_all add: bnb_inv_def feasible_stack_def)
  then show ?thesis
    unfolding iterative_bnb_def by (rule bnb_loop_feasible)
qed

lemma sum_list_upt_update:
  fixes g :: "'a \<Rightarrow> nat \<Rightarrow> int"
  assumes "j < length xs"
  shows "(\<Sum>i \<leftarrow> [0..<length xs]. g (xs[j := v] ! i) i)
         = (\<Sum>i \<leftarrow> [0..<length xs]. g (xs ! i) i) - g (xs ! j) j + g v j"
proof -
  let ?N = "{0..<length xs}"
  have fin: "finite ?N" and mem: "j \<in> ?N" using assms by simp_all
  have "(\<Sum>i \<in> ?N. g (xs[j := v] ! i) i)
        = g (xs[j := v] ! j) j + (\<Sum>i \<in> ?N - {j}. g (xs[j := v] ! i) i)"
    by (rule sum.remove[OF fin mem])
  also have "(\<Sum>i \<in> ?N - {j}. g (xs[j := v] ! i) i) = (\<Sum>i \<in> ?N - {j}. g (xs ! i) i)"
    by (rule sum.cong) auto
  also have "g (xs[j := v] ! j) j = g v j" using assms by simp
  finally have a: "(\<Sum>i \<in> ?N. g (xs[j := v] ! i) i) = g v j + (\<Sum>i \<in> ?N - {j}. g (xs ! i) i)" .
  have b: "(\<Sum>i \<in> ?N. g (xs ! i) i) = g (xs ! j) j + (\<Sum>i \<in> ?N - {j}. g (xs ! i) i)"
    by (rule sum.remove[OF fin mem])
  have c: "\<And>h :: nat \<Rightarrow> int. (\<Sum>i \<leftarrow> [0..<length xs]. h i) = sum h ?N"
    by (simp add: interv_sum_list_conv_sum_set_nat)
  show ?thesis using a b by (simp add: c)
qed

lemma assemble_Inr:
  assumes "assemble perm st sol = Inr sol'"
  shows "sol_instance sol' = sol_instance sol \<and> length (taken sol') = length (taken sol)
         \<and> list_all (\<lambda>d. d < length perm) st
         \<and> (\<forall>i. taken sol' ! i \<longrightarrow> taken sol ! i \<or> (\<exists>d \<in> set st. d < length perm \<and> i = perm ! d))"
  using assms
proof (induction st arbitrary: sol)
  case Nil
  then show ?case by simp
next
  case (Cons tp rest)
  from Cons.prems have lt: "tp < length perm" and j: "perm ! tp < length (taken sol)"
    by (auto simp: add_def split: if_splits)
  let ?sol1 = "sol\<lparr>taken := (taken sol)[perm ! tp := True]\<rparr>"
  from Cons.prems lt j have "assemble perm rest ?sol1 = Inr sol'"
    by (simp add: add_def)
  from Cons.IH[OF this] lt j show ?case
    by (auto simp: nth_list_update split: if_splits)
qed

lemma assemble_sum:
  fixes f :: "nat \<Rightarrow> int"
  assumes "assemble perm st sol = Inr sol'"
    and "distinct (map ((!) perm) st)"
    and "\<forall>d \<in> set st. \<not> taken sol ! (perm ! d)"
  shows "(\<Sum>i \<leftarrow> [0..<length (taken sol)]. if taken sol' ! i then f i else 0)
         = (\<Sum>i \<leftarrow> [0..<length (taken sol)]. if taken sol ! i then f i else 0)
           + (\<Sum>d \<leftarrow> st. f (perm ! d))"
  using assms
proof (induction st arbitrary: sol)
  case Nil
  then show ?case by simp
next
  case (Cons tp rest)
  from Cons.prems(1) have lt: "tp < length perm" and j: "perm ! tp < length (taken sol)"
    by (auto simp: add_def split: if_splits)
  let ?sol1 = "sol\<lparr>taken := (taken sol)[perm ! tp := True]\<rparr>"
  from Cons.prems(1) lt j have run: "assemble perm rest ?sol1 = Inr sol'"
    by (simp add: add_def)
  have d: "distinct (map ((!) perm) rest)" using Cons.prems(2) by simp
  have fresh: "\<forall>d \<in> set rest. \<not> taken ?sol1 ! (perm ! d)"
  proof
    fix d assume d: "d \<in> set rest"
    then have "perm ! tp \<noteq> perm ! d" using Cons.prems(2) by auto
    then show "\<not> taken ?sol1 ! (perm ! d)"
      using Cons.prems(3) d by (simp add: nth_list_update_neq)
  qed
  have upd: "(\<Sum>i \<leftarrow> [0..<length (taken sol)]. if taken ?sol1 ! i then f i else 0)
             = (\<Sum>i \<leftarrow> [0..<length (taken sol)]. if taken sol ! i then f i else 0) + f (perm ! tp)"
    using sum_list_upt_update[OF j, of "\<lambda>t i. if t then f i else 0" True] Cons.prems(3)
    by simp
  from Cons.IH[OF run d fresh] upd show ?case by simp
qed

lemma preprocess_member:
  assumes "p \<in> set (preprocess inst)"
  shows "snd p < itemCount inst" and "fst p = items inst ! snd p"
    and "item_cost (fst p) \<le> budget inst"
  using assms
  unfolding preprocess_def sort_zip_def remove_if_too_costly_def getBudget_def getItems_def
    itemCount_def
  by (auto simp: set_zip)

lemma preprocess_distinct: "distinct (map snd (preprocess inst))"
proof -
  let ?z = "zip (getItems inst) [0..<itemCount inst]"
  have "map snd ?z = [0..<itemCount inst]"
    by (simp add: getItems_def itemCount_def map_snd_zip)
  then have "distinct (map snd ?z)" by simp
  then have "distinct (map snd (remove_if_too_costly (getBudget inst) ?z))"
    unfolding remove_if_too_costly_def by (rule distinct_map_filter)
  then show ?thesis
    unfolding preprocess_def sort_zip_def by (simp add: distinct_map)
qed

lemma preprocess_nth:
  assumes "d < length (preprocess inst)"
  shows "map snd (preprocess inst) ! d < itemCount inst"
    and "map fst (preprocess inst) ! d = items inst ! (map snd (preprocess inst) ! d)"
    and "item_cost (map fst (preprocess inst) ! d) \<le> budget inst"
  using preprocess_member[of "preprocess inst ! d" inst] assms by simp_all

lemma preprocess_subset:
  assumes "p \<in> set (preprocess inst)"
  shows "fst p \<in> set (items inst)"
proof -
  from preprocess_member(1,2)[OF assms]
  have "snd p < length (items inst)" and "fst p = items inst ! snd p"
    by (simp_all add: itemCount_def)
  then show ?thesis by simp
qed

lemma preprocess_non_negative:
  assumes "non_negative inst"
  shows "list_all (\<lambda>it. 0 \<le> item_cost it) (map fst (preprocess inst))"
    and "list_all (\<lambda>it. 0 \<le> item_value it) (map fst (preprocess inst))"
proof -
  have "\<And>p. p \<in> set (preprocess inst) \<Longrightarrow> fst p \<in> set (items inst)"
    by (rule preprocess_subset)
  with assms show "list_all (\<lambda>it. 0 \<le> item_cost it) (map fst (preprocess inst))"
    and "list_all (\<lambda>it. 0 \<le> item_value it) (map fst (preprocess inst))"
    by (auto simp: non_negative_def list_all_iff)
qed

lemma preprocess_fits:
  "list_all (\<lambda>it. item_cost it \<le> budget inst) (map fst (preprocess inst))"
  using preprocess_member(3) by (auto simp: list_all_iff)

lemma iterative_bnb_empty: "iterative_bnb [] b = Inl OutOfBounds"
  by (simp add: iterative_bnb_def bnb_loop.simps)

lemma sorted_wrt_greater_distinct: "sorted_wrt (>) (st :: nat list) \<Longrightarrow> distinct st"
  by (induction st) auto

lemma sum_list_upt_all_False:
  "(\<Sum>i \<leftarrow> [0..<n]. if replicate n False ! i then f i else (0::int)) = 0"
proof -
  have "(\<Sum>i \<leftarrow> [0..<n]. if replicate n False ! i then f i else (0::int))
        = (\<Sum>i \<in> {0..<n}. if replicate n False ! i then f i else 0)"
    by (simp add: interv_sum_list_conv_sum_set_nat)
  also have "\<dots> = 0" by (rule sum.neutral) simp
  finally show ?thesis .
qed

lemma solve_Inr:
  assumes "solve inst = Inr s"
  obtains r where "iterative_bnb (map fst (preprocess inst)) (budget inst) = Inr r"
    and "assemble (map snd (preprocess inst)) r (new_Solution inst) = Inr s"
  using assms by (auto simp: solve_def Let_def getBudget_def split: sum.splits)

lemma solve_totals:
  fixes f :: "nat \<Rightarrow> int"
  assumes bnb: "iterative_bnb (map fst (preprocess inst)) (budget inst) = Inr r"
    and asm: "assemble (map snd (preprocess inst)) r (new_Solution inst) = Inr s"
    and dist: "distinct r"
  shows "(\<Sum>i \<leftarrow> [0..<itemCount inst]. if taken s ! i then f i else 0)
         = (\<Sum>d \<leftarrow> r. f (map snd (preprocess inst) ! d))"
proof -
  let ?perm = "map snd (preprocess inst)"
  from assemble_Inr[OF asm] have rng: "list_all (\<lambda>d. d < length ?perm) r" by simp
  have inj: "inj_on ((!) ?perm) (set r)"
    using rng by (intro inj_on_nth preprocess_distinct) (simp add: list_all_iff)
  have d: "distinct (map ((!) ?perm) r)"
    using dist inj by (simp add: distinct_map)
  have fresh: "\<forall>d \<in> set r. \<not> taken (new_Solution inst) ! (?perm ! d)"
    using rng preprocess_nth(1)[of _ inst] by (auto simp: new_Solution_def list_all_iff)
  have len: "length (taken (new_Solution inst)) = itemCount inst"
    by (simp add: new_Solution_def)
  from assemble_sum[OF asm d fresh, of f] show ?thesis
    unfolding len by (simp add: new_Solution_def sum_list_upt_all_False)
qed

lemma solve_feasible:
  assumes nn: "non_negative inst" and sol: "solve inst = Inr s"
  shows "getCost s \<le> getBudget inst"
proof -
  let ?its = "map fst (preprocess inst)" and ?perm = "map snd (preprocess inst)"
  from sol obtain r where bnb: "iterative_bnb ?its (budget inst) = Inr r"
    and asm: "assemble ?perm r (new_Solution inst) = Inr s"
    by (rule solve_Inr)
  from bnb have ne: "?its \<noteq> []"
    using iterative_bnb_empty[of "budget inst"] by auto
  from nn have b0: "0 \<le> budget inst" by (simp add: non_negative_def)
  from iterative_bnb_feasible[OF ne preprocess_non_negative(1)[OF nn] preprocess_fits b0] bnb
  have feas: "feasible_stack ?its (budget inst) r" by simp
  then have dist: "distinct r" and rng: "list_all (\<lambda>d. d < length ?its) r"
    and le: "stack_cost ?its r \<le> budget inst"
    by (simp_all add: feasible_stack_def sorted_wrt_greater_distinct)
  have inst: "sol_instance s = inst"
    using assemble_Inr[OF asm] by (simp add: new_Solution_def)
  have "getCost s = (\<Sum>d \<leftarrow> r. item_cost (items inst ! (?perm ! d)))"
    unfolding getCost_def inst by (rule solve_totals[OF bnb asm dist])
  also have "\<dots> = stack_cost ?its r"
    unfolding stack_cost_def
    using rng preprocess_nth(2)[of _ inst]
    by (intro arg_cong[where f = sum_list] map_cong refl) (simp add: list_all_iff)
  finally show ?thesis using le by (simp add: getBudget_def)
qed

lemma solve_excludes:
  assumes sol: "solve inst = Inr s" and i: "i < itemCount inst"
    and big: "item_cost (items inst ! i) > getBudget inst"
  shows "\<not> isTaken s i"
proof
  assume "isTaken s i"
  let ?perm = "map snd (preprocess inst)"
  from sol obtain r where asm: "assemble ?perm r (new_Solution inst) = Inr s"
    by (rule solve_Inr)
  from assemble_Inr[OF asm] \<open>isTaken s i\<close> i
  obtain d where "d < length ?perm" and "i = ?perm ! d"
    by (auto simp: isTaken_def new_Solution_def)
  with preprocess_nth(2,3)[of d inst] big show False
    by (simp add: getBudget_def)
qed

lemma unbounded_stack_cost_Nil [simp]: "unbounded_stack_cost its [] = 0"
  by (simp add: unbounded_stack_cost_def)

lemma unbounded_stack_cost_Cons [simp]:
  "unbounded_stack_cost its (p # st) = snd p * item_cost (its ! fst p) + unbounded_stack_cost its st"
  by (simp add: unbounded_stack_cost_def)

lemma cpp_div_non_negative:
  assumes "cpp_div a c = Inr k" and "0 \<le> a" and "0 \<le> c"
  shows "k = a div c" and "0 < c" and "0 \<le> k" and "k * c \<le> a"
proof -
  from assms show c: "0 < c" by (auto simp: cpp_div_def split: if_splits)
  with assms show k: "k = a div c"
    by (cases "a = 0") (auto simp: cpp_div_def split: if_splits)
  from k c assms(2) show "0 \<le> k" by (simp add: pos_imp_zdiv_nonneg_iff)
  have "a div c * c + a mod c = a" by simp
  moreover have "0 \<le> a mod c" using c by simp
  ultimately have "a div c * c \<le> a" by linarith
  with k show "k * c \<le> a" by simp
qed

lemma unbounded_bnb_inv_begin:
  assumes "unbounded_bnb_inv its b BEGIN depth budget_left stack best_stack"
    and "depth < length its"
    and "cpp_div budget_left (item_cost (its ! depth)) = Inr k"
  shows "unbounded_bnb_inv its b FOR (depth + 1) (budget_left - k * item_cost (its ! depth))
           ((depth, k) # stack) best_stack"
proof -
  from assms(1) have bl: "0 \<le> budget_left" by (simp add: unbounded_bnb_inv_def)
  from assms(1,2) have c: "0 \<le> item_cost (its ! depth)"
    by (simp add: unbounded_bnb_inv_def cost_nth_nonneg)
  from cpp_div_non_negative(4)[OF assms(3) bl c] assms(1,2) show ?thesis
    by (auto simp: unbounded_bnb_inv_def list_all_iff)
qed

lemma unbounded_bnb_inv_skip:
  assumes "unbounded_bnb_inv its b FOR depth budget_left stack best_stack"
  shows "unbounded_bnb_inv its b FOR (depth + 1) budget_left stack best_stack"
  using assms by (auto simp: unbounded_bnb_inv_def list_all_iff)

lemma unbounded_bnb_inv_prune:
  assumes "unbounded_bnb_inv its b FOR depth budget_left stack best_stack"
  shows "unbounded_bnb_inv its b BACKTRACK depth' budget_left stack best_stack"
  using assms by (auto simp: unbounded_bnb_inv_def list_all_iff)

lemma unbounded_bnb_inv_take:
  assumes "unbounded_bnb_inv its b FOR depth budget_left stack best_stack"
  shows "unbounded_bnb_inv its b BEGIN depth budget_left stack best_stack"
  using assms by (auto simp: unbounded_bnb_inv_def list_all_iff)

lemma unbounded_bnb_inv_record:
  assumes "unbounded_bnb_inv its b FOR depth budget_left stack best_stack"
  shows "unbounded_bnb_inv its b BACKTRACK depth' budget_left stack stack"
  using assms by (auto simp: unbounded_bnb_inv_def unbounded_feasible_stack_def list_all_iff)

lemma unbounded_bnb_inv_pop:
  assumes "unbounded_bnb_inv its b BACKTRACK depth budget_left ((d, c) # rest) best_stack"
  shows "unbounded_bnb_inv its b FOR (d + 1) (budget_left + item_cost (its ! d))
           (if c - 1 = 0 then rest else (d, c - 1) # rest) best_stack"
proof -
  from assms have d: "d < length its" and nn: "list_all (\<lambda>it. 0 \<le> item_cost it) its"
    by (simp_all add: unbounded_bnb_inv_def)
  from cost_nth_nonneg[OF nn d] assms show ?thesis
    by (auto simp: unbounded_bnb_inv_def list_all_iff algebra_simps)
qed

lemma unbounded_bnb_loop_feasible:
  assumes run: "unbounded_bnb_loop its pc depth val budget_left best_value stack best_stack = Some y"
  shows "unbounded_bnb_inv its b pc depth budget_left stack best_stack \<longrightarrow>
         (\<forall>r. y = Inr r \<longrightarrow> unbounded_feasible_stack its b r)"
proof (rule unbounded_bnb_loop.raw_induct
    [where P = "\<lambda>its pc depth val budget_left best_value stack best_stack y.
       unbounded_bnb_inv its b pc depth budget_left stack best_stack \<longrightarrow>
         (\<forall>r. y = Inr r \<longrightarrow> unbounded_feasible_stack its b r)", OF _ run], goal_cases)
  case (1 loop its pc depth val budget_left best_value stack best_stack y)
  note IH = "1"(1) and body = "1"(2)
  show ?case
  proof (intro impI)
    assume inv: "unbounded_bnb_inv its b pc depth budget_left stack best_stack"
    show "\<forall>r. y = Inr r \<longrightarrow> unbounded_feasible_stack its b r"
    proof (cases pc)
      case BEGIN
      with body inv show ?thesis
        by (auto split: if_splits sum.splits dest!: IH unbounded_bnb_inv_begin)
    next
      case FOR
      with inv have inv': "unbounded_bnb_inv its b FOR depth budget_left stack best_stack"
        by simp
      have skip: "unbounded_bnb_inv its b FOR (Suc depth) budget_left stack best_stack"
        using unbounded_bnb_inv_skip[OF inv'] by simp
      note steps = skip unbounded_bnb_inv_prune[OF inv', of depth]
        unbounded_bnb_inv_take[OF inv'] unbounded_bnb_inv_record[OF inv', of depth]
      from body FOR steps show ?thesis
        by (auto split: if_splits sum.splits dest!: IH)
    next
      case BACKTRACK
      show ?thesis
      proof (cases stack)
        case Nil
        with BACKTRACK body inv show ?thesis
          by (auto simp: unbounded_bnb_inv_def)
      next
        case (Cons p rest)
        obtain d c where p: "p = (d, c)" by (cases p)
        from inv BACKTRACK Cons p have d: "d < length its"
          by (simp add: unbounded_bnb_inv_def)
        from inv BACKTRACK Cons p
        have "unbounded_bnb_inv its b BACKTRACK depth budget_left ((d, c) # rest) best_stack"
          by simp
        from unbounded_bnb_inv_pop[OF this] body BACKTRACK Cons p d show ?thesis
          by (auto dest!: IH)
      qed
    qed
  qed
qed

lemma unbounded_assemble_Inr:
  assumes "unbounded_assemble perm st sol = Inr sol'"
  shows "usol_instance sol' = usol_instance sol \<and> length (nb_taken sol') = length (nb_taken sol)
         \<and> list_all (\<lambda>p. fst p < length perm) st
         \<and> (\<forall>i. nb_taken sol' ! i \<noteq> nb_taken sol ! i
                \<longrightarrow> (\<exists>p \<in> set st. fst p < length perm \<and> i = perm ! fst p))"
  using assms
proof (induction st arbitrary: sol)
  case Nil
  then show ?case by simp
next
  case (Cons tp rest)
  from Cons.prems have lt: "fst tp < length perm"
    and j: "perm ! fst tp < length (nb_taken sol)"
    by (auto simp: set_nb_def split: if_splits)
  let ?sol1 = "sol\<lparr>nb_taken := (nb_taken sol)[perm ! fst tp := snd tp]\<rparr>"
  from Cons.prems lt j have "unbounded_assemble perm rest ?sol1 = Inr sol'"
    by (simp add: set_nb_def)
  from Cons.IH[OF this] lt j show ?case
    by (auto simp: nth_list_update split: if_splits)
qed

lemma unbounded_assemble_sum:
  fixes f :: "nat \<Rightarrow> int"
  assumes "unbounded_assemble perm st sol = Inr sol'"
    and "distinct (map (\<lambda>p. perm ! fst p) st)"
    and "\<forall>p \<in> set st. nb_taken sol ! (perm ! fst p) = 0"
  shows "(\<Sum>i \<leftarrow> [0..<length (nb_taken sol)]. nb_taken sol' ! i * f i)
         = (\<Sum>i \<leftarrow> [0..<length (nb_taken sol)]. nb_taken sol ! i * f i)
           + (\<Sum>p \<leftarrow> st. snd p * f (perm ! fst p))"
  using assms
proof (induction st arbitrary: sol)
  case Nil
  then show ?case by simp
next
  case (Cons tp rest)
  from Cons.prems(1) have lt: "fst tp < length perm"
    and j: "perm ! fst tp < length (nb_taken sol)"
    by (auto simp: set_nb_def split: if_splits)
  let ?sol1 = "sol\<lparr>nb_taken := (nb_taken sol)[perm ! fst tp := snd tp]\<rparr>"
  from Cons.prems(1) lt j have run: "unbounded_assemble perm rest ?sol1 = Inr sol'"
    by (simp add: set_nb_def)
  have d: "distinct (map (\<lambda>p. perm ! fst p) rest)" using Cons.prems(2) by simp
  have fresh: "\<forall>p \<in> set rest. nb_taken ?sol1 ! (perm ! fst p) = 0"
  proof
    fix p assume p: "p \<in> set rest"
    then have "perm ! fst tp \<noteq> perm ! fst p" using Cons.prems(2) by auto
    then show "nb_taken ?sol1 ! (perm ! fst p) = 0"
      using Cons.prems(3) p by (simp add: nth_list_update_neq)
  qed
  have upd: "(\<Sum>i \<leftarrow> [0..<length (nb_taken sol)]. nb_taken ?sol1 ! i * f i)
             = (\<Sum>i \<leftarrow> [0..<length (nb_taken sol)]. nb_taken sol ! i * f i)
               + snd tp * f (perm ! fst tp)"
    using sum_list_upt_update[OF j, of "\<lambda>c i. c * f i" "snd tp"] Cons.prems(3)
    by simp
  from Cons.IH[OF run d fresh] upd show ?case by simp
qed

lemma unbounded_iterative_bnb_feasible:
  assumes "unbounded_iterative_bnb its b = Some (Inr r)"
    and "list_all (\<lambda>it. 0 \<le> item_cost it) its" and "0 \<le> b"
  shows "unbounded_feasible_stack its b r"
proof -
  from assms(2,3) have "unbounded_bnb_inv its b BEGIN 0 b [] []"
    by (simp add: unbounded_bnb_inv_def unbounded_feasible_stack_def)
  with unbounded_bnb_loop_feasible[OF assms(1)[unfolded unbounded_iterative_bnb_def], of b]
  show ?thesis by simp
qed

lemma sum_list_upt_all_zero:
  "(\<Sum>i \<leftarrow> [0..<n]. replicate n (0::int) ! i * f i) = 0"
proof -
  have "(\<Sum>i \<leftarrow> [0..<n]. replicate n (0::int) ! i * f i)
        = (\<Sum>i \<in> {0..<n}. replicate n (0::int) ! i * f i)"
    by (simp add: interv_sum_list_conv_sum_set_nat)
  also have "\<dots> = 0" by (rule sum.neutral) simp
  finally show ?thesis .
qed

lemma unbounded_solve_Inr:
  assumes "unbounded_solve inst = Some (Inr s)"
  obtains r where "unbounded_iterative_bnb (map fst (preprocess inst)) (budget inst) = Some (Inr r)"
    and "unbounded_assemble (map snd (preprocess inst)) r (new_USolution inst) = Inr s"
  using assms
  by (auto simp: unbounded_solve_def Let_def getBudget_def split: option.splits sum.splits)

lemma unbounded_solve_feasible:
  assumes nn: "non_negative inst" and sol: "unbounded_solve inst = Some (Inr s)"
  shows "unbounded_getCost s \<le> getBudget inst"
proof -
  let ?its = "map fst (preprocess inst)" and ?perm = "map snd (preprocess inst)"
  from sol obtain r where bnb: "unbounded_iterative_bnb ?its (budget inst) = Some (Inr r)"
    and asm: "unbounded_assemble ?perm r (new_USolution inst) = Inr s"
    by (rule unbounded_solve_Inr)
  from nn have b0: "0 \<le> budget inst" by (simp add: non_negative_def)
  from unbounded_iterative_bnb_feasible[OF bnb preprocess_non_negative(1)[OF nn] b0]
  have dist: "distinct (map fst r)" and rng: "list_all (\<lambda>p. fst p < length ?its) r"
    and le: "unbounded_stack_cost ?its r \<le> budget inst"
    by (simp_all add: unbounded_feasible_stack_def sorted_wrt_greater_distinct)
  have inj: "inj_on ((!) ?perm) (set (map fst r))"
    using rng by (intro inj_on_nth preprocess_distinct) (simp add: list_all_iff)
  have "distinct (map ((!) ?perm) (map fst r))"
    using dist inj by (simp only: distinct_map)
  then have d: "distinct (map (\<lambda>p. ?perm ! fst p) r)" by (simp add: comp_def)
  have fresh: "\<forall>p \<in> set r. nb_taken (new_USolution inst) ! (?perm ! fst p) = 0"
    using rng preprocess_nth(1)[of _ inst] by (auto simp: new_USolution_def list_all_iff)
  have inst: "usol_instance s = inst"
    using unbounded_assemble_Inr[OF asm] by (simp add: new_USolution_def)
  have len: "length (nb_taken (new_USolution inst)) = itemCount inst"
    by (simp add: new_USolution_def)
  have "unbounded_getCost s = (\<Sum>p \<leftarrow> r. snd p * item_cost (items inst ! (?perm ! fst p)))"
    unfolding unbounded_getCost_def inst
    using unbounded_assemble_sum[OF asm d fresh, of "\<lambda>i. item_cost (items inst ! i)"]
    unfolding len by (simp add: new_USolution_def sum_list_upt_all_zero)
  also have "\<dots> = unbounded_stack_cost ?its r"
    unfolding unbounded_stack_cost_def
    using rng preprocess_nth(2)[of _ inst]
    by (intro arg_cong[where f = sum_list] map_cong refl) (simp add: list_all_iff)
  finally show ?thesis using le by (simp add: getBudget_def)
qed

lemma unbounded_solve_excludes:
  assumes sol: "unbounded_solve inst = Some (Inr s)" and i: "i < itemCount inst"
    and big: "item_cost (items inst ! i) > getBudget inst"
  shows "nb_taken s ! i = 0"
proof (rule ccontr)
  assume nz: "nb_taken s ! i \<noteq> 0"
  let ?perm = "map snd (preprocess inst)"
  from sol obtain r where asm: "unbounded_assemble ?perm r (new_USolution inst) = Inr s"
    by (rule unbounded_solve_Inr)
  from nz i have "nb_taken s ! i \<noteq> nb_taken (new_USolution inst) ! i"
    by (simp add: new_USolution_def)
  with unbounded_assemble_Inr[OF asm]
  obtain d where "d < length ?perm" and "i = ?perm ! d"
    by blast
  with preprocess_nth(2,3)[of d inst] big show False
    by (simp add: getBudget_def)
qed

lemma preprocess_nonempty:
  assumes "it \<in> set (items inst)" and "item_cost it \<le> budget inst"
  shows "preprocess inst \<noteq> []"
proof -
  from assms(1) obtain i where i: "i < length (items inst)" and it: "items inst ! i = it"
    by (auto simp: in_set_conv_nth)
  then have "(it, i) \<in> set (zip (items inst) [0..<length (items inst)])"
    by (auto simp: set_zip)
  with assms(2) have "(it, i) \<in> set (preprocess inst)"
    by (simp add: preprocess_def sort_zip_def remove_if_too_costly_def getBudget_def
        getItems_def itemCount_def)
  then show ?thesis by auto
qed

lemma assemble_succeeds:
  assumes "list_all (\<lambda>d. d < length perm) st"
    and "list_all (\<lambda>i. i < length (taken sol)) perm"
  shows "\<exists>sol'. assemble perm st sol = Inr sol'"
  using assms
proof (induction st arbitrary: sol)
  case Nil
  then show ?case by simp
next
  case (Cons tp rest)
  from Cons.prems(1) have lt: "tp < length perm" by simp
  with Cons.prems(2) have j: "perm ! tp < length (taken sol)"
    by (simp add: list_all_length)
  let ?sol1 = "sol\<lparr>taken := (taken sol)[perm ! tp := True]\<rparr>"
  have "\<exists>sol'. assemble perm rest ?sol1 = Inr sol'"
    using Cons.prems by (intro Cons.IH) simp_all
  with lt j show ?case by (simp add: add_def)
qed

lemma solve_returns:
  assumes nn: "non_negative inst"
    and fits: "it \<in> set (items inst)" "item_cost it \<le> budget inst"
  shows "\<exists>s r. solve inst = Inr s
           \<and> iterative_bnb (map fst (preprocess inst)) (budget inst) = Inr r
           \<and> feasible_stack (map fst (preprocess inst)) (budget inst) r"
proof -
  let ?its = "map fst (preprocess inst)" and ?perm = "map snd (preprocess inst)"
  have ne: "?its \<noteq> []" using preprocess_nonempty[OF fits] by simp
  from nn have b0: "0 \<le> budget inst" by (simp add: non_negative_def)
  from iterative_bnb_feasible[OF ne preprocess_non_negative(1)[OF nn] preprocess_fits b0]
  obtain r where bnb: "iterative_bnb ?its (budget inst) = Inr r"
    and feas: "feasible_stack ?its (budget inst) r" by blast
  from feas have rng: "list_all (\<lambda>d. d < length ?perm) r"
    by (simp add: feasible_stack_def)
  have "list_all (\<lambda>i. i < length (taken (new_Solution inst))) ?perm"
    using preprocess_member(1)[of _ inst] by (auto simp: list_all_iff new_Solution_def)
  from assemble_succeeds[OF rng this] obtain s
    where "assemble ?perm r (new_Solution inst) = Inr s" by blast
  with bnb feas show ?thesis by (auto simp: solve_def Let_def getBudget_def)
qed

lemma solve_cost_value:
  assumes bnb: "iterative_bnb (map fst (preprocess inst)) (budget inst) = Inr r"
    and feas: "feasible_stack (map fst (preprocess inst)) (budget inst) r"
    and sol: "solve inst = Inr s"
  shows "getCost s = stack_cost (map fst (preprocess inst)) r"
    and "getValue s = stack_value (map fst (preprocess inst)) r"
proof -
  let ?its = "map fst (preprocess inst)" and ?perm = "map snd (preprocess inst)"
  from sol bnb have asm: "assemble ?perm r (new_Solution inst) = Inr s"
    by (auto simp: solve_def Let_def getBudget_def)
  from feas have dist: "distinct r" and rng: "list_all (\<lambda>d. d < length ?its) r"
    by (simp_all add: feasible_stack_def sorted_wrt_greater_distinct)
  have inst: "sol_instance s = inst"
    using assemble_Inr[OF asm] by (simp add: new_Solution_def)
  have "getCost s = (\<Sum>d \<leftarrow> r. item_cost (items inst ! (?perm ! d)))"
    unfolding getCost_def inst by (rule solve_totals[OF bnb asm dist])
  also have "\<dots> = stack_cost ?its r"
    unfolding stack_cost_def
    using rng preprocess_nth(2)[of _ inst]
    by (intro arg_cong[where f = sum_list] map_cong refl) (simp add: list_all_iff)
  finally show "getCost s = stack_cost ?its r" .
  have "getValue s = (\<Sum>d \<leftarrow> r. item_value (items inst ! (?perm ! d)))"
    unfolding getValue_def inst by (rule solve_totals[OF bnb asm dist])
  also have "\<dots> = stack_value ?its r"
    unfolding stack_value_def
    using rng preprocess_nth(2)[of _ inst]
    by (intro arg_cong[where f = sum_list] map_cong refl) (simp add: list_all_iff)
  finally show "getValue s = stack_value ?its r" .
qed

lemma sum_list_all_zero:
  "(\<And>x. x \<in> set xs \<Longrightarrow> f x = (0::int)) \<Longrightarrow> (\<Sum>x \<leftarrow> xs. f x) = 0"
  by (induction xs) simp_all

lemma lex_less:
  fixes a p :: nat
  assumes "a' < a \<or> (a' = a \<and> p' < p)" and "p' < P"
  shows "a' * P + p' < a * P + p"
proof (cases "a' < a")
  case True
  then have "Suc a' * P \<le> a * P" by (intro mult_le_mono1) simp
  with assms(2) show ?thesis by simp
next
  case False
  with assms(1) show ?thesis by simp
qed

lemma bnb_phase_bound: "bnb_phase n pc depth < 2 * n + 3"
  by (cases pc) auto

lemma pow_split: "d < n \<Longrightarrow> (R::nat) ^ (n - d) = R * R ^ (n - Suc d)"
proof -
  assume "d < n"
  then have "n - d = Suc (n - Suc d)" by simp
  then show ?thesis by simp
qed

lemma rank_begin:
  assumes "depth < n" and "nat k + 1 \<le> R"
  shows "unbounded_rank R n FOR (Suc depth) ((depth, k) # st) \<le> unbounded_rank R n BEGIN depth st"
proof -
  have "nat k * R ^ (n - Suc depth) + R ^ (n - Suc depth) = (nat k + 1) * R ^ (n - Suc depth)"
    by simp
  also have "\<dots> \<le> R * R ^ (n - Suc depth)" using assms(2) by (intro mult_le_mono1)
  finally show ?thesis using assms(1) by (simp add: pow_split)
qed

lemma pow_ge_one: "2 \<le> R \<Longrightarrow> (1::nat) \<le> R ^ k"
  by (simp add: Suc_leI)

lemma rank_skip:
  assumes "depth < n" and "2 \<le> R"
  shows "unbounded_rank R n FOR (Suc depth) st < unbounded_rank R n FOR depth st"
proof -
  from pow_ge_one[OF assms(2), of "n - Suc depth"] assms(2)
  have "R ^ (n - Suc depth) < R * R ^ (n - Suc depth)" by simp
  with assms(1) show ?thesis by (simp add: pow_split)
qed

lemma rank_prune:
  assumes "depth < n" and "2 \<le> R"
  shows "unbounded_rank R n BACKTRACK depth' st < unbounded_rank R n FOR depth st"
proof -
  from pow_ge_one[OF assms(2), of "n - Suc depth"]
  have "2 * 1 \<le> R * R ^ (n - Suc depth)" using assms(2) by (intro mult_le_mono)
  with assms(1) show ?thesis by (simp add: pow_split)
qed

lemma rank_pop:
  assumes "1 \<le> c"
  shows "unbounded_rank R n FOR (Suc d) (if c - 1 = 0 then rest else (d, c - 1) # rest)
         < unbounded_rank R n BACKTRACK depth ((d, c) # rest)"
proof (cases "c - 1 = 0")
  case True
  with assms have "c = 1" by simp
  then show ?thesis by simp
next
  case False
  with assms have "nat c = Suc (nat (c - 1))" by simp
  with False show ?thesis by simp
qed

lemma unbounded_computeUpperBound_returns:
  assumes "list_all (\<lambda>it. 0 < item_cost it) its"
  shows "\<exists>ub. unbounded_computeUpperBound its depth bv bl = Inr ub"
  using assms
proof (induction its depth bv bl rule: unbounded_computeUpperBound.induct)
  case (1 sorted_items depth bound_value bound_budget_left)
  show ?case
  proof (cases "depth < length sorted_items \<and> \<not> bound_budget_left \<le> item_cost (sorted_items ! depth)")
    case True
    then have "item_cost (sorted_items ! depth) \<noteq> 0"
      using "1.prems" by (auto simp: list_all_length)
    then obtain k where k: "cpp_div bound_budget_left (item_cost (sorted_items ! depth)) = Inr k"
      by (simp add: cpp_div_def)
    from "1.IH"[OF _ _ k "1.prems"] True k show ?thesis
      by (subst unbounded_computeUpperBound.simps) simp
  next
    case False
    then show ?thesis
      by (subst unbounded_computeUpperBound.simps) auto
  qed
qed

lemma unbounded_stack_cost_nonneg:
  assumes "list_all (\<lambda>it. 0 \<le> item_cost it) its"
    and "list_all (\<lambda>p. fst p < length its) st" and "list_all (\<lambda>p. 1 \<le> snd p) st"
  shows "0 \<le> unbounded_stack_cost its st"
  using assms(2,3)
proof (induction st)
  case Nil
  then show ?case by simp
next
  case (Cons p st)
  then have "0 \<le> snd p" and "0 \<le> item_cost (its ! fst p)"
    using cost_nth_nonneg[OF assms(1)] by simp_all
  then have "0 \<le> snd p * item_cost (its ! fst p)" by simp
  with Cons show ?case by simp
qed

lemma unbounded_term_inv_begin:
  assumes "unbounded_bnb_term_inv its b BEGIN depth budget_left stack best_stack"
  shows "\<exists>k. cpp_div budget_left (item_cost (its ! depth)) = Inr k \<and> nat k + 1 \<le> nat b + 2
           \<and> unbounded_bnb_term_inv its b FOR (Suc depth)
                (budget_left - k * item_cost (its ! depth)) ((depth, k) # stack) best_stack"
proof -
  let ?c = "item_cost (its ! depth)"
  from assms have inv: "unbounded_bnb_inv its b BEGIN depth budget_left stack best_stack"
    and pos: "list_all (\<lambda>it. 0 < item_cost it) its"
    and cnt: "list_all (\<lambda>p. 1 \<le> snd p) stack"
    and d: "depth < length its" and fits: "?c \<le> budget_left"
    by (simp_all add: unbounded_bnb_term_inv_def)
  from pos d have c: "0 < ?c" by (simp add: list_all_length)
  then obtain k where k: "cpp_div budget_left ?c = Inr k" by (simp add: cpp_div_def)
  from inv have bl: "0 \<le> budget_left" and eq: "budget_left = b - unbounded_stack_cost its stack"
    and nn: "list_all (\<lambda>it. 0 \<le> item_cost it) its"
    and rng: "list_all (\<lambda>p. fst p < length its) stack"
    by (simp_all add: unbounded_bnb_inv_def)
  from c have c0: "0 \<le> ?c" by simp
  note kk = cpp_div_non_negative[OF k bl c0]
  have "0 < budget_left div ?c" using c fits by (simp add: pos_imp_zdiv_pos_iff)
  with kk(1) have k1: "1 \<le> k" by simp
  have "k * 1 \<le> k * ?c" using kk(3) c by (intro mult_left_mono) simp_all
  with kk(4) have "k \<le> budget_left" by simp
  moreover from unbounded_stack_cost_nonneg[OF nn rng cnt] eq have "budget_left \<le> b" by simp
  ultimately have bound: "nat k + 1 \<le> nat b + 2" by simp
  from unbounded_bnb_inv_begin[OF inv d k]
  have "unbounded_bnb_inv its b FOR (Suc depth) (budget_left - k * ?c) ((depth, k) # stack) best_stack"
    by simp
  with pos cnt k1
  have "unbounded_bnb_term_inv its b FOR (Suc depth) (budget_left - k * ?c)
          ((depth, k) # stack) best_stack"
    by (simp add: unbounded_bnb_term_inv_def)
  with k bound show ?thesis by blast
qed

lemma unbounded_term_inv_for:
  assumes "unbounded_bnb_term_inv its b FOR depth budget_left stack best_stack"
  shows "unbounded_bnb_term_inv its b FOR (Suc depth) budget_left stack best_stack"
    and "unbounded_bnb_term_inv its b BACKTRACK depth budget_left stack best_stack"
    and "unbounded_bnb_term_inv its b BACKTRACK depth budget_left stack stack"
    and "depth < length its \<Longrightarrow> \<not> budget_left < item_cost (its ! depth) \<Longrightarrow>
           unbounded_bnb_term_inv its b BEGIN depth budget_left stack best_stack"
proof -
  from assms have inv: "unbounded_bnb_inv its b FOR depth budget_left stack best_stack"
    and rest: "list_all (\<lambda>it. 0 < item_cost it) its" "list_all (\<lambda>p. 1 \<le> snd p) stack"
    by (simp_all add: unbounded_bnb_term_inv_def)
  from unbounded_bnb_inv_skip[OF inv] rest
  show "unbounded_bnb_term_inv its b FOR (Suc depth) budget_left stack best_stack"
    by (simp add: unbounded_bnb_term_inv_def)
  from unbounded_bnb_inv_prune[OF inv] rest
  show "unbounded_bnb_term_inv its b BACKTRACK depth budget_left stack best_stack"
    by (simp add: unbounded_bnb_term_inv_def)
  from unbounded_bnb_inv_record[OF inv] rest
  show "unbounded_bnb_term_inv its b BACKTRACK depth budget_left stack stack"
    by (simp add: unbounded_bnb_term_inv_def)
  assume "depth < length its" and "\<not> budget_left < item_cost (its ! depth)"
  with unbounded_bnb_inv_take[OF inv] rest
  show "unbounded_bnb_term_inv its b BEGIN depth budget_left stack best_stack"
    by (simp add: unbounded_bnb_term_inv_def)
qed

lemma unbounded_term_inv_pop:
  assumes "unbounded_bnb_term_inv its b BACKTRACK depth budget_left ((d, c) # rest) best_stack"
  shows "d < length its" and "1 \<le> c"
    and "unbounded_bnb_term_inv its b FOR (Suc d) (budget_left + item_cost (its ! d))
           (if c - 1 = 0 then rest else (d, c - 1) # rest) best_stack"
proof -
  from assms have inv: "unbounded_bnb_inv its b BACKTRACK depth budget_left ((d, c) # rest) best_stack"
    and pos: "list_all (\<lambda>it. 0 < item_cost it) its"
    and cnt: "list_all (\<lambda>p. 1 \<le> snd p) ((d, c) # rest)"
    by (simp_all add: unbounded_bnb_term_inv_def)
  from inv show "d < length its" by (simp add: unbounded_bnb_inv_def)
  from cnt show "1 \<le> c" by simp
  from unbounded_bnb_inv_pop[OF inv] pos cnt
  show "unbounded_bnb_term_inv its b FOR (Suc d) (budget_left + item_cost (its ! d))
           (if c - 1 = 0 then rest else (d, c - 1) # rest) best_stack"
    by (auto simp: unbounded_bnb_term_inv_def)
qed

lemma unbounded_bnb_loop_returns:
  assumes "unbounded_bnb_term_inv its b pc depth budget_left stack best_stack"
  shows "\<exists>r. unbounded_bnb_loop its pc depth val budget_left best_value stack best_stack
               = Some (Inr r)"
  using assms
proof (induction "unbounded_rank (nat b + 2) (length its) pc depth stack * (2 * length its + 3)
                    + bnb_phase (length its) pc depth"
       arbitrary: pc depth val budget_left best_value stack best_stack rule: less_induct)
  case less
  let ?R = "nat b + 2" and ?n = "length its"
  note inv = less.prems
  have R2: "2 \<le> ?R" by simp
  show ?case
  proof (cases pc)
    case BEGIN
    from unbounded_term_inv_begin[OF inv[unfolded BEGIN]] obtain k
      where k: "cpp_div budget_left (item_cost (its ! depth)) = Inr k"
        and bound: "nat k + 1 \<le> ?R"
        and inv': "unbounded_bnb_term_inv its b FOR (Suc depth)
                (budget_left - k * item_cost (its ! depth)) ((depth, k) # stack) best_stack"
      by blast
    from inv BEGIN have d: "depth < ?n" by (simp add: unbounded_bnb_term_inv_def)
    have "unbounded_rank ?R ?n FOR (Suc depth) ((depth, k) # stack) * (2 * ?n + 3)
            + bnb_phase ?n FOR (Suc depth)
          < unbounded_rank ?R ?n pc depth stack * (2 * ?n + 3) + bnb_phase ?n pc depth"
      unfolding BEGIN using rank_begin[OF d bound, of stack] d
      by (intro lex_less bnb_phase_bound) auto
    from less.hyps[OF this inv'] d k BEGIN show ?thesis
      by (subst unbounded_bnb_loop.simps) simp
  next
    case FOR
    note steps = unbounded_term_inv_for[OF inv[unfolded FOR]]
    show ?thesis
    proof (cases "depth < ?n")
      case d: True
      show ?thesis
      proof (cases "budget_left < item_cost (its ! depth)")
        case True
        have "unbounded_rank ?R ?n FOR (Suc depth) stack * (2 * ?n + 3) + bnb_phase ?n FOR (Suc depth)
              < unbounded_rank ?R ?n pc depth stack * (2 * ?n + 3) + bnb_phase ?n pc depth"
          unfolding FOR using rank_skip[OF d R2, of stack] 
          by (intro lex_less bnb_phase_bound) simp
        from less.hyps[OF this steps(1)] d True FOR show ?thesis
          by (subst unbounded_bnb_loop.simps) simp
      next
        case fits: False
        from inv have "list_all (\<lambda>it. 0 < item_cost it) its"
          by (simp add: unbounded_bnb_term_inv_def)
        from unbounded_computeUpperBound_returns[OF this] obtain ub
          where ub: "unbounded_computeUpperBound its depth val budget_left = Inr ub" by blast
        show ?thesis
        proof (cases "ub \<le> real_of_int best_value")
          case True
          have "unbounded_rank ?R ?n BACKTRACK depth stack * (2 * ?n + 3) + bnb_phase ?n BACKTRACK depth
                < unbounded_rank ?R ?n pc depth stack * (2 * ?n + 3) + bnb_phase ?n pc depth"
            unfolding FOR using rank_prune[OF d R2, of depth stack] 
            by (intro lex_less bnb_phase_bound) simp
          from less.hyps[OF this steps(2)] d fits ub True FOR show ?thesis
            by (subst unbounded_bnb_loop.simps) simp
        next
          case False
          have "unbounded_rank ?R ?n BEGIN depth stack * (2 * ?n + 3) + bnb_phase ?n BEGIN depth
                < unbounded_rank ?R ?n pc depth stack * (2 * ?n + 3) + bnb_phase ?n pc depth"
            unfolding FOR by (intro lex_less bnb_phase_bound) simp
          from less.hyps[OF this steps(4)[OF d fits]] d fits ub False FOR show ?thesis
            by (subst unbounded_bnb_loop.simps) simp
        qed
      qed
    next
      case nd: False
      have dec: "unbounded_rank ?R ?n BACKTRACK depth stack * (2 * ?n + 3) + bnb_phase ?n BACKTRACK depth
            < unbounded_rank ?R ?n pc depth stack * (2 * ?n + 3) + bnb_phase ?n pc depth"
        unfolding FOR using nd 
        by (intro lex_less bnb_phase_bound) simp
      show ?thesis
      proof (cases "val \<le> best_value")
        case True
        from less.hyps[OF dec steps(2)] nd True FOR show ?thesis
          by (subst unbounded_bnb_loop.simps) simp
      next
        case False
        from less.hyps[OF dec steps(3)] nd False FOR show ?thesis
          by (subst unbounded_bnb_loop.simps) simp
      qed
    qed
  next
    case BACKTRACK
    show ?thesis
    proof (cases stack)
      case Nil
      with BACKTRACK show ?thesis
        by (subst unbounded_bnb_loop.simps) simp
    next
      case (Cons p rest)
      obtain d c where p: "p = (d, c)" by (cases p)
      note pop = unbounded_term_inv_pop[OF inv[unfolded BACKTRACK Cons p]]
      have "unbounded_rank ?R ?n FOR (Suc d) (if c - 1 = 0 then rest else (d, c - 1) # rest)
              * (2 * ?n + 3) + bnb_phase ?n FOR (Suc d)
            < unbounded_rank ?R ?n pc depth stack * (2 * ?n + 3) + bnb_phase ?n pc depth"
        unfolding BACKTRACK Cons p using rank_pop[OF pop(2), of ?R ?n d rest depth]
        by (intro lex_less bnb_phase_bound) simp
      from less.hyps[OF this pop(3)] pop(1) BACKTRACK Cons p
      show ?thesis
        by (subst unbounded_bnb_loop.simps) simp
    qed
  qed
qed

text \<open>
  When does \<open>solve\<close> return a solution: in the 0/1 variant as soon as one item costs no
  more than the budget; in the unbounded variant when, besides, every cost is positive.
\<close>

lemma unbounded_iterative_bnb_returns:
  assumes "its \<noteq> []" and "list_all (\<lambda>it. 0 < item_cost it) its"
    and "list_all (\<lambda>it. item_cost it \<le> b) its" and "0 \<le> b"
  shows "\<exists>r. unbounded_iterative_bnb its b = Some (Inr r) \<and> unbounded_feasible_stack its b r"
proof -
  from assms(2) have nn: "list_all (\<lambda>it. 0 \<le> item_cost it) its"
    by (auto simp: list_all_iff intro: less_imp_le)
  from assms nn have "unbounded_bnb_term_inv its b BEGIN 0 b [] []"
    by (cases its)
      (simp_all add: unbounded_bnb_term_inv_def unbounded_bnb_inv_def unbounded_feasible_stack_def)
  from unbounded_bnb_loop_returns[OF this, of 0 0] obtain r
    where r: "unbounded_iterative_bnb its b = Some (Inr r)"
    by (auto simp: unbounded_iterative_bnb_def)
  with unbounded_iterative_bnb_feasible[OF r nn assms(4)] show ?thesis by blast
qed

lemma unbounded_assemble_succeeds:
  assumes "list_all (\<lambda>p. fst p < length perm) st"
    and "list_all (\<lambda>i. i < length (nb_taken sol)) perm"
  shows "\<exists>sol'. unbounded_assemble perm st sol = Inr sol'"
  using assms
proof (induction st arbitrary: sol)
  case Nil
  then show ?case by simp
next
  case (Cons tp rest)
  from Cons.prems(1) have lt: "fst tp < length perm" by simp
  with Cons.prems(2) have j: "perm ! fst tp < length (nb_taken sol)"
    by (simp add: list_all_length)
  let ?sol1 = "sol\<lparr>nb_taken := (nb_taken sol)[perm ! fst tp := snd tp]\<rparr>"
  have "\<exists>sol'. unbounded_assemble perm rest ?sol1 = Inr sol'"
    using Cons.prems by (intro Cons.IH) simp_all
  with lt j show ?case by (simp add: set_nb_def)
qed

lemma unbounded_solve_returns:
  assumes nn: "non_negative inst"
    and pos: "list_all (\<lambda>it. 0 < item_cost it) (items inst)"
    and fits: "it \<in> set (items inst)" "item_cost it \<le> budget inst"
  shows "\<exists>s. unbounded_solve inst = Some (Inr s)"
proof -
  let ?its = "map fst (preprocess inst)" and ?perm = "map snd (preprocess inst)"
  have ne: "?its \<noteq> []" using preprocess_nonempty[OF fits] by simp
  from nn have b0: "0 \<le> budget inst" by (simp add: non_negative_def)
  have "\<And>p. p \<in> set (preprocess inst) \<Longrightarrow> fst p \<in> set (items inst)"
    by (rule preprocess_subset)
  with pos have pos': "list_all (\<lambda>it. 0 < item_cost it) ?its"
    by (auto simp: list_all_iff)
  from unbounded_iterative_bnb_returns[OF ne pos' preprocess_fits b0]
  obtain r where bnb: "unbounded_iterative_bnb ?its (budget inst) = Some (Inr r)"
    and feas: "unbounded_feasible_stack ?its (budget inst) r" by blast
  from feas have rng: "list_all (\<lambda>p. fst p < length ?perm) r"
    by (simp add: unbounded_feasible_stack_def)
  have "list_all (\<lambda>i. i < length (nb_taken (new_USolution inst))) ?perm"
    using preprocess_member(1)[of _ inst] by (auto simp: list_all_iff new_USolution_def)
  from unbounded_assemble_succeeds[OF rng this] obtain s
    where "unbounded_assemble ?perm r (new_USolution inst) = Inr s" by blast
  with bnb show ?thesis by (simp add: unbounded_solve_def Let_def getBudget_def)
qed

lemma solve_returns_solution:
  assumes "non_negative inst" and "it \<in> set (items inst)" and "item_cost it \<le> budget inst"
  shows "\<exists>s. solve inst = Inr s"
  using solve_returns[OF assms] by blast

section \<open>Evaluation\<close>

lemmas solver_defs =
  solve_def unbounded_solve_def preprocess_def sort_zip_def remove_if_too_costly_def
  getBudget_def getItems_def itemCount_def getRatio_def
  iterative_bnb_def bnb_loop.simps computeUpperBound.simps
  unbounded_iterative_bnb_def unbounded_bnb_loop.simps unbounded_computeUpperBound.simps
  new_Solution_def add_def new_USolution_def set_nb_def cpp_div_def
  getValue_def getCost_def unbounded_getValue_def unbounded_getCost_def upt_rec

text \<open>The three scenarios of the specification.\<close>

lemma scenario_zero_one:
  "solve \<lparr>budget = 50, items = [Item 60 10, Item 100 20, Item 120 30]\<rparr>
     = Inr \<lparr>sol_instance = \<lparr>budget = 50, items = [Item 60 10, Item 100 20, Item 120 30]\<rparr>,
       taken = [False, True, True]\<rparr>"
  "getValue \<lparr>sol_instance = \<lparr>budget = 50, items = [Item 60 10, Item 100 20, Item 120 30]\<rparr>,
       taken = [False, True, True]\<rparr> = 220"
  "getCost \<lparr>sol_instance = \<lparr>budget = 50, items = [Item 60 10, Item 100 20, Item 120 30]\<rparr>,
       taken = [False, True, True]\<rparr> = 50"
  by (simp_all add: solver_defs)

lemma scenario_unbounded:
  "unbounded_solve \<lparr>budget = 35, items = [Item 60 10]\<rparr>
     = Some (Inr \<lparr>usol_instance = \<lparr>budget = 35, items = [Item 60 10]\<rparr>,
       nb_taken = [3]\<rparr>)"
  "unbounded_getValue \<lparr>usol_instance = \<lparr>budget = 35, items = [Item 60 10]\<rparr>,
       nb_taken = [3]\<rparr> = 180"
  "unbounded_getCost \<lparr>usol_instance = \<lparr>budget = 35, items = [Item 60 10]\<rparr>,
       nb_taken = [3]\<rparr> = 30"
  by (simp_all add: solver_defs)

lemma scenario_filtering:
  "solve \<lparr>budget = 5, items = [Item 10 5, Item 1000 999]\<rparr>
     = Inr \<lparr>sol_instance = \<lparr>budget = 5, items = [Item 10 5, Item 1000 999]\<rparr>,
       taken = [True, False]\<rparr>"
  "getValue \<lparr>sol_instance = \<lparr>budget = 5, items = [Item 10 5, Item 1000 999]\<rparr>,
       taken = [True, False]\<rparr> = 10"
  by (simp_all add: solver_defs)

section \<open>Solutions that are returned, and instances in which no item fits\<close>

text \<open>
  A solution that \<open>solve\<close> returns costs no more than the budget, and has a zero decision
  at every item that costs more than the budget. By \<open>solve_returns_solution\<close> and
  \<open>unbounded_solve_returns\<close> a solution is returned when an item fits the budget (and, in
  the unbounded variant, every cost is positive).
\<close>

lemma solve_result_feasible:
  assumes "non_negative inst"
  shows "(\<forall>s. solve inst = Inr s \<longrightarrow> getCost s \<le> getBudget inst)
         \<and> (\<forall>s. unbounded_solve inst = Some (Inr s) \<longrightarrow> unbounded_getCost s \<le> getBudget inst)"
  using assms solve_feasible unbounded_solve_feasible by blast

lemma solve_result_feasible_example:
  "non_negative \<lparr>budget = 50, items = [Item 60 10, Item 100 20, Item 120 30]\<rparr>
   \<and> solve \<lparr>budget = 50, items = [Item 60 10, Item 100 20, Item 120 30]\<rparr>
     = Inr \<lparr>sol_instance = \<lparr>budget = 50, items = [Item 60 10, Item 100 20, Item 120 30]\<rparr>,
       taken = [False, True, True]\<rparr>
   \<and> getCost \<lparr>sol_instance = \<lparr>budget = 50, items = [Item 60 10, Item 100 20, Item 120 30]\<rparr>,
       taken = [False, True, True]\<rparr>
     \<le> getBudget \<lparr>budget = 50, items = [Item 60 10, Item 100 20, Item 120 30]\<rparr>
   \<and> unbounded_solve \<lparr>budget = 50, items = [Item 60 10, Item 100 20, Item 120 30]\<rparr>
     = Some (Inr \<lparr>usol_instance = \<lparr>budget = 50, items = [Item 60 10, Item 100 20, Item 120 30]\<rparr>,
       nb_taken = [5, 0, 0]\<rparr>)
   \<and> unbounded_getCost \<lparr>usol_instance = \<lparr>budget = 50, items = [Item 60 10, Item 100 20, Item 120 30]\<rparr>,
       nb_taken = [5, 0, 0]\<rparr>
     \<le> getBudget \<lparr>budget = 50, items = [Item 60 10, Item 100 20, Item 120 30]\<rparr>"
proof -
  let ?inst = "\<lparr>budget = 50, items = [Item 60 10, Item 100 20, Item 120 30]\<rparr>"
  let ?s = "\<lparr>sol_instance = ?inst, taken = [False, True, True]\<rparr>"
  let ?u = "\<lparr>usol_instance = ?inst, nb_taken = [5, 0, 0]\<rparr>"
  have nn: "non_negative ?inst" by (simp add: non_negative_def)
  have s: "solve ?inst = Inr ?s" by (simp add: solver_defs)
  have u: "unbounded_solve ?inst = Some (Inr ?u)" by (simp add: solver_defs)
  from solve_result_feasible[OF nn] s u
  have "getCost ?s \<le> getBudget ?inst \<and> unbounded_getCost ?u \<le> getBudget ?inst"
    by blast
  with nn s u show ?thesis by blast
qed

lemma solve_excludes_too_costly:
  assumes "i < itemCount inst" and "getBudget inst < item_cost (items inst ! i)"
  shows "(\<forall>s. solve inst = Inr s \<longrightarrow> \<not> isTaken s i)
         \<and> (\<forall>s. unbounded_solve inst = Some (Inr s)
                \<longrightarrow> nb_taken s ! i = 0 \<and> \<not> unbounded_isTaken s i)"
  using assms solve_excludes unbounded_solve_excludes
  by (auto simp: unbounded_isTaken_def)

lemma solve_excludes_too_costly_example:
  "1 < itemCount \<lparr>budget = 5, items = [Item 10 5, Item 1000 999]\<rparr>
   \<and> getBudget \<lparr>budget = 5, items = [Item 10 5, Item 1000 999]\<rparr>
       < item_cost (items \<lparr>budget = 5, items = [Item 10 5, Item 1000 999]\<rparr> ! 1)
   \<and> solve \<lparr>budget = 5, items = [Item 10 5, Item 1000 999]\<rparr>
     = Inr \<lparr>sol_instance = \<lparr>budget = 5, items = [Item 10 5, Item 1000 999]\<rparr>,
       taken = [True, False]\<rparr>
   \<and> \<not> isTaken \<lparr>sol_instance = \<lparr>budget = 5, items = [Item 10 5, Item 1000 999]\<rparr>,
       taken = [True, False]\<rparr> 1
   \<and> unbounded_solve \<lparr>budget = 5, items = [Item 10 5, Item 1000 999]\<rparr>
     = Some (Inr \<lparr>usol_instance = \<lparr>budget = 5, items = [Item 10 5, Item 1000 999]\<rparr>,
       nb_taken = [1, 0]\<rparr>)
   \<and> nb_taken \<lparr>usol_instance = \<lparr>budget = 5, items = [Item 10 5, Item 1000 999]\<rparr>,
       nb_taken = [1, 0]\<rparr> ! 1 = 0
   \<and> \<not> unbounded_isTaken \<lparr>usol_instance = \<lparr>budget = 5, items = [Item 10 5, Item 1000 999]\<rparr>,
       nb_taken = [1, 0]\<rparr> 1"
proof -
  let ?inst = "\<lparr>budget = 5, items = [Item 10 5, Item 1000 999]\<rparr>"
  let ?s = "\<lparr>sol_instance = ?inst, taken = [True, False]\<rparr>"
  let ?u = "\<lparr>usol_instance = ?inst, nb_taken = [1, 0]\<rparr>"
  have i: "1 < itemCount ?inst" by (simp add: itemCount_def)
  have big: "getBudget ?inst < item_cost (items ?inst ! 1)" by (simp add: getBudget_def)
  have s: "solve ?inst = Inr ?s" by (simp add: solver_defs)
  have u: "unbounded_solve ?inst = Some (Inr ?u)" by (simp add: solver_defs)
  from solve_excludes_too_costly[OF i big] s u
  have "\<not> isTaken ?s 1 \<and> nb_taken ?u ! 1 = 0 \<and> \<not> unbounded_isTaken ?u 1"
    by blast
  with i big s u show ?thesis by blast
qed

text \<open>
  When every item costs more than the budget, the working list is empty and both
  searches read \<open>sorted_items[0]\<close> outside the vector: no solution is defined.
\<close>

lemma preprocess_nothing_fits:
  assumes "list_all (\<lambda>it. budget inst < item_cost it) (items inst)"
  shows "preprocess inst = []"
proof -
  have "\<And>p. p \<in> set (zip (items inst) [0..<length (items inst)])
          \<Longrightarrow> budget inst < item_cost (fst p)"
  proof -
    fix p assume "p \<in> set (zip (items inst) [0..<length (items inst)])"
    then have "(fst p, snd p) \<in> set (zip (items inst) [0..<length (items inst)])"
      by simp
    then have "fst p \<in> set (items inst)"
      by (rule set_zip_leftD)
    with assms show "budget inst < item_cost (fst p)" by (simp add: list_all_iff)
  qed
  then have "remove_if_too_costly (budget inst) (zip (items inst) [0..<length (items inst)]) = []"
    by (simp add: remove_if_too_costly_def filter_empty_conv)
  then show ?thesis
    by (simp add: preprocess_def sort_zip_def getBudget_def getItems_def itemCount_def)
qed

lemma nothing_fits_out_of_bounds:
  assumes "list_all (\<lambda>it. budget inst < item_cost it) (items inst)"
  shows "solve inst = Inl OutOfBounds" and "unbounded_solve inst = Some (Inl OutOfBounds)"
proof -
  note e = preprocess_nothing_fits[OF assms]
  show "solve inst = Inl OutOfBounds"
    by (simp add: solve_def e iterative_bnb_empty)
  have "unbounded_iterative_bnb [] (getBudget inst) = Some (Inl OutOfBounds)"
    by (simp add: unbounded_iterative_bnb_def unbounded_bnb_loop.simps)
  then show "unbounded_solve inst = Some (Inl OutOfBounds)"
    by (simp add: unbounded_solve_def e)
qed

section \<open>The claims\<close>

text \<open>
  C1 (optimality): the solution \<open>solve\<close> returns has the largest total value of all
  feasible selections, in both variants. The unbounded search does not: with budget 19
  and the items (165, 16), (100, 10), (59, 6) it returns one copy of the first item,
  value 165, although three copies of the third cost 18 and are worth 177. After the
  first descent the search is at position 1 with nothing taken and the whole budget,
  the bound there is 100 + 59 = 159, which is not above 165, and the branch that holds
  the optimum is cut.
\<close>

theorem unbounded_solve_misses_optimum:
  "unbounded_solve \<lparr>budget = 19, items = [Item 165 16, Item 100 10, Item 59 6]\<rparr>
     = Some (Inr \<lparr>usol_instance = \<lparr>budget = 19, items = [Item 165 16, Item 100 10, Item 59 6]\<rparr>,
       nb_taken = [1, 0, 0]\<rparr>)
   \<and> unbounded_getValue \<lparr>usol_instance = \<lparr>budget = 19, items = [Item 165 16, Item 100 10, Item 59 6]\<rparr>,
       nb_taken = [1, 0, 0]\<rparr> = 165
   \<and> unbounded_getCost \<lparr>usol_instance = \<lparr>budget = 19, items = [Item 165 16, Item 100 10, Item 59 6]\<rparr>,
       nb_taken = [0, 0, 3]\<rparr> = 18
   \<and> unbounded_getValue \<lparr>usol_instance = \<lparr>budget = 19, items = [Item 165 16, Item 100 10, Item 59 6]\<rparr>,
       nb_taken = [0, 0, 3]\<rparr> = 177"
  by (simp add: solver_defs)

text \<open>
  The 0/1 search misses an optimum too, when the budget is 0 and a free item of value 0
  is sorted before a free item of positive value: the bound at the second item is the
  value taken so far, 0, and the item is never tried.
\<close>

lemma solve_misses_free_item:
  "solve \<lparr>budget = 0, items = [Item 0 0, Item 5 0]\<rparr>
     = Inr \<lparr>sol_instance = \<lparr>budget = 0, items = [Item 0 0, Item 5 0]\<rparr>,
       taken = [False, False]\<rparr>
   \<and> getValue \<lparr>sol_instance = \<lparr>budget = 0, items = [Item 0 0, Item 5 0]\<rparr>,
       taken = [False, False]\<rparr> = 0
   \<and> getCost \<lparr>sol_instance = \<lparr>budget = 0, items = [Item 0 0, Item 5 0]\<rparr>,
       taken = [False, True]\<rparr> = 0
   \<and> getValue \<lparr>sol_instance = \<lparr>budget = 0, items = [Item 0 0, Item 5 0]\<rparr>,
       taken = [False, True]\<rparr> = 5"
  by (simp add: solver_defs DBL_MAX_def)

text \<open>
  C2 (feasibility): for every instance with non-negative budget, values and costs, the
  solution \<open>solve\<close> returns, in either variant, costs no more than the budget. The
  instance with budget 5 and the single item (1000, 999) is one for which it does not
  hold: the filter removes the item, the working list is empty, and the search reads
  \<open>sorted_items[0]\<close> and then \<open>permuted_id[0]\<close> outside their vectors. No solution is
  defined there; \<open>erase\<close> only shrinks the vectors, so a build that reads the erased
  element takes the item, and the solution with that item taken costs 999.
\<close>

theorem solve_nothing_fits_not_feasible:
  "non_negative \<lparr>budget = 5, items = [Item 1000 999]\<rparr>
   \<and> preprocess \<lparr>budget = 5, items = [Item 1000 999]\<rparr> = []
   \<and> solve \<lparr>budget = 5, items = [Item 1000 999]\<rparr> = Inl OutOfBounds
   \<and> unbounded_solve \<lparr>budget = 5, items = [Item 1000 999]\<rparr> = Some (Inl OutOfBounds)
   \<and> getBudget \<lparr>budget = 5, items = [Item 1000 999]\<rparr>
       < getCost \<lparr>sol_instance = \<lparr>budget = 5, items = [Item 1000 999]\<rparr>, taken = [True]\<rparr>"
  by (simp add: solver_defs non_negative_def)

text \<open>
  C3 (totality): \<open>solve\<close> returns a solution for every instance with non-negative
  budget, values and costs, also when no item survives the filter and when an item is
  free. It does not: when the working list is empty, \<open>goto begin\<close> reads
  \<open>sorted_items[0]\<close> of an empty vector; and in the unbounded variant a free item
  makes \<open>budget_left / cost\<close> a division by zero. On the other inputs \<open>solve\<close> does
  return (\<open>solve_returns_solution\<close>, \<open>unbounded_solve_returns\<close>).
\<close>

theorem solve_undefined_inputs:
  "solve \<lparr>budget = 5, items = [Item 1000 999]\<rparr> = Inl OutOfBounds
   \<and> unbounded_solve \<lparr>budget = 5, items = [Item 7 0, Item 3 2]\<rparr> = Some (Inl DivisionByZero)"
  by (simp add: solver_defs DBL_MAX_def)

text \<open>
  C4 (admissible bound): on a sorted working list, \<open>computeUpperBound\<close> is at least the
  value of every feasible completion of the partial state, in both variants. The
  unbounded bound is not: on the sorted list (100, 10), (59, 6), from position 0 with
  value 0 and budget 19, it takes one copy of the first item and one of the second and
  returns 159, while three copies of the second item cost 18 and are worth 177.
\<close>

theorem unbounded_bound_not_admissible:
  "sorted_by_ratio [Item 100 10, Item 59 6]
   \<and> unbounded_computeUpperBound [Item 100 10, Item 59 6] 0 0 19 = Inr 159
   \<and> unbounded_stack_cost [Item 100 10, Item 59 6] [(1, 3)] = 18
   \<and> unbounded_stack_value [Item 100 10, Item 59 6] [(1, 3)] = 177"
  by (simp add: solver_defs sorted_by_ratio_def item_less_def unbounded_stack_value_def)

text \<open>
  The 0/1 bound underestimates as well when nothing is left of the budget and the item
  at \<open>depth\<close> is free: it returns the value taken so far.
\<close>

lemma bound_ignores_free_item:
  "sorted_by_ratio [Item 5 0]
   \<and> computeUpperBound [Item 5 0] 0 0 0 = 0
   \<and> stack_cost [Item 5 0] [0] = 0
   \<and> stack_value [Item 5 0] [0] = 5"
  by (simp add: solver_defs sorted_by_ratio_def item_less_def stack_value_def)

text \<open>
  C5 (degenerate inputs): when the item list is empty, the budget is 0 or no item
  survives the filter, \<open>solve\<close> returns the solution with total value 0 and total
  cost 0. With budget 0 a free item still fits, and the 0/1 search takes it: the
  instance with budget 0 and the single item (5, 0) has a solution of value 5.
  As amended: in the 0/1 variant, for every instance with non-negative values and costs
  whose budget is 0 and which has an item of cost 0, \<open>solve\<close> returns a solution of
  total cost 0, and of total value 0 when every item of cost 0 has value 0.
\<close>

theorem solve_zero_budget:
  assumes nn: "non_negative inst" and b: "budget inst = 0"
    and free: "\<exists>it \<in> set (items inst). item_cost it = 0"
  shows "\<exists>s. solve inst = Inr s \<and> getCost s = 0
           \<and> ((\<forall>it \<in> set (items inst). item_cost it = 0 \<longrightarrow> item_value it = 0)
                \<longrightarrow> getValue s = 0)"
proof -
  let ?its = "map fst (preprocess inst)"
  from free obtain it where it: "it \<in> set (items inst)" "item_cost it \<le> budget inst"
    using b by auto
  from solve_returns[OF nn it] obtain s r where sol: "solve inst = Inr s"
    and bnb: "iterative_bnb ?its (budget inst) = Inr r"
    and feas: "feasible_stack ?its (budget inst) r" by blast
  note cv = solve_cost_value[OF bnb feas sol]
  from feas have rng: "\<And>d. d \<in> set r \<Longrightarrow> d < length (preprocess inst)"
    by (simp add: feasible_stack_def list_all_iff)
  have member: "\<And>d. d \<in> set r \<Longrightarrow> ?its ! d \<in> set (items inst)"
    using rng preprocess_nth(1,2)[of _ inst] by (simp add: itemCount_def)
  have zero: "\<And>d. d \<in> set r \<Longrightarrow> item_cost (?its ! d) = 0"
  proof -
    fix d assume d: "d \<in> set r"
    from preprocess_nth(3)[OF rng[OF d]] b have "item_cost (?its ! d) \<le> 0" by simp
    moreover from member[OF d] nn have "0 \<le> item_cost (?its ! d)"
      by (simp add: non_negative_def list_all_iff)
    ultimately show "item_cost (?its ! d) = 0" by simp
  qed
  have cost: "getCost s = 0"
    unfolding cv(1) stack_cost_def by (rule sum_list_all_zero) (rule zero)
  have val: "getValue s = 0"
    if all: "\<forall>it \<in> set (items inst). item_cost it = 0 \<longrightarrow> item_value it = 0"
    unfolding cv(2) stack_value_def
  proof (rule sum_list_all_zero)
    fix d assume d: "d \<in> set r"
    from all member[OF d] zero[OF d] show "item_value (?its ! d) = 0" by blast
  qed
  from sol cost val show ?thesis by blast
qed

theorem solve_zero_budget_witness:
  "non_negative \<lparr>budget = 0, items = [Item 0 0, Item 7 3]\<rparr>
   \<and> budget \<lparr>budget = 0, items = [Item 0 0, Item 7 3]\<rparr> = 0
   \<and> (\<exists>it \<in> set (items \<lparr>budget = 0, items = [Item 0 0, Item 7 3]\<rparr>). item_cost it = 0)
   \<and> list_all (\<lambda>it. item_cost it = 0 \<longrightarrow> item_value it = 0)
         (items \<lparr>budget = 0, items = [Item 0 0, Item 7 3]\<rparr>)
   \<and> (\<exists>s. solve \<lparr>budget = 0, items = [Item 0 0, Item 7 3]\<rparr> = Inr s
          \<and> getCost s = 0 \<and> getValue s = 0)"
proof -
  let ?inst = "\<lparr>budget = 0, items = [Item 0 0, Item 7 3]\<rparr>"
  have nn: "non_negative ?inst" by (simp add: non_negative_def)
  have b: "budget ?inst = 0" by simp
  have free: "\<exists>it \<in> set (items ?inst). item_cost it = 0" by simp
  have all: "\<forall>it \<in> set (items ?inst). item_cost it = 0 \<longrightarrow> item_value it = 0" by simp
  from solve_zero_budget[OF nn b free] all
  have "\<exists>s. solve ?inst = Inr s \<and> getCost s = 0 \<and> getValue s = 0" by blast
  moreover have "list_all (\<lambda>it. item_cost it = 0 \<longrightarrow> item_value it = 0) (items ?inst)"
    by simp
  ultimately show ?thesis using nn b free by blast
qed

theorem solve_zero_budget_counterexample:
  "budget \<lparr>budget = 0, items = [Item 5 0]\<rparr> = 0
   \<and> solve \<lparr>budget = 0, items = [Item 5 0]\<rparr>
     = Inr \<lparr>sol_instance = \<lparr>budget = 0, items = [Item 5 0]\<rparr>, taken = [True]\<rparr>
   \<and> getValue \<lparr>sol_instance = \<lparr>budget = 0, items = [Item 5 0]\<rparr>, taken = [True]\<rparr> \<noteq> 0"
  by (simp add: solver_defs)

text \<open>
  C6 (exclusion): an item whose cost exceeds the budget has a zero decision in the
  solution \<open>solve\<close> returns: it is not taken in the 0/1 variant, and its count is 0 in
  the unbounded variant. The instance with budget 3 and the single item (9, 4) is one
  for which it does not hold: item 0 costs more than the budget, the working list is
  empty, and the search reads \<open>sorted_items[0]\<close> and \<open>permuted_id[0]\<close> outside their
  vectors. No solution is defined there; a build that reads the erased element pushes
  position 0 and sets the decision of item 0.
\<close>

theorem solve_too_costly_item_undefined:
  "0 < itemCount \<lparr>budget = 3, items = [Item 9 4]\<rparr>
   \<and> getBudget \<lparr>budget = 3, items = [Item 9 4]\<rparr>
       < item_cost (items \<lparr>budget = 3, items = [Item 9 4]\<rparr> ! 0)
   \<and> preprocess \<lparr>budget = 3, items = [Item 9 4]\<rparr> = []
   \<and> solve \<lparr>budget = 3, items = [Item 9 4]\<rparr> = Inl OutOfBounds
   \<and> unbounded_solve \<lparr>budget = 3, items = [Item 9 4]\<rparr> = Some (Inl OutOfBounds)"
  by (simp add: solver_defs)

text \<open>
  C7 (monotonicity): with the items fixed, the total value of the solution \<open>solve\<close>
  returns does not decrease when the budget grows, in both variants. In the unbounded
  variant it does: with the items (10, 2), (100, 12), (41, 5), (108, 13) the solution
  for budget 20 is worth 164 and the solution for budget 21 is worth 161.
\<close>

theorem unbounded_solve_not_monotone:
  "unbounded_solve \<lparr>budget = 20, items = [Item 10 2, Item 100 12, Item 41 5, Item 108 13]\<rparr>
     = Some (Inr \<lparr>usol_instance = \<lparr>budget = 20, items = [Item 10 2, Item 100 12, Item 41 5, Item 108 13]\<rparr>,
       nb_taken = [0, 0, 4, 0]\<rparr>)
   \<and> unbounded_getValue \<lparr>usol_instance = \<lparr>budget = 20, items = [Item 10 2, Item 100 12, Item 41 5, Item 108 13]\<rparr>,
       nb_taken = [0, 0, 4, 0]\<rparr> = 164
   \<and> unbounded_solve \<lparr>budget = 21, items = [Item 10 2, Item 100 12, Item 41 5, Item 108 13]\<rparr>
     = Some (Inr \<lparr>usol_instance = \<lparr>budget = 21, items = [Item 10 2, Item 100 12, Item 41 5, Item 108 13]\<rparr>,
       nb_taken = [2, 1, 1, 0]\<rparr>)
   \<and> unbounded_getValue \<lparr>usol_instance = \<lparr>budget = 21, items = [Item 10 2, Item 100 12, Item 41 5, Item 108 13]\<rparr>,
       nb_taken = [2, 1, 1, 0]\<rparr> = 161"
  by (simp add: solver_defs)

text \<open>
  C9 (ratio): \<open>getRatio\<close> returns positive infinity for an item of cost 0, and the value
  divided by the cost otherwise. For a cost of 0 the code returns
  \<open>std::numeric_limits<double>::max()\<close>, the largest finite double, not infinity.
  As amended: \<open>getRatio\<close> returns the largest finite double when the cost is 0, and
  otherwise the quotient of value and cost.
\<close>

theorem getRatio_amended:
  "(item_cost it = 0 \<longrightarrow> getRatio it = DBL_MAX)
   \<and> (item_cost it \<noteq> 0 \<longrightarrow>
         getRatio it * real_of_int (item_cost it) = real_of_int (item_value it)
         \<and> Finite (getRatio it) = spec_ratio it)"
  by (simp add: getRatio_def spec_ratio_def)

theorem getRatio_amended_witness:
  "item_cost (Item 5 0) = 0 \<and> getRatio (Item 5 0) = DBL_MAX
   \<and> item_cost (Item 60 10) \<noteq> 0
   \<and> getRatio (Item 60 10) * real_of_int (item_cost (Item 60 10))
       = real_of_int (item_value (Item 60 10))
   \<and> Finite (getRatio (Item 60 10)) = spec_ratio (Item 60 10)"
proof -
  have a: "item_cost (Item 5 0) = 0" by simp
  have b: "item_cost (Item 60 10) \<noteq> 0" by simp
  from getRatio_amended[of "Item 5 0"] a
  have c: "getRatio (Item 5 0) = DBL_MAX" by blast
  from getRatio_amended[of "Item 60 10"] b
  have d: "getRatio (Item 60 10) * real_of_int (item_cost (Item 60 10))
             = real_of_int (item_value (Item 60 10))
           \<and> Finite (getRatio (Item 60 10)) = spec_ratio (Item 60 10)" by blast
  from a b c d show ?thesis by blast
qed

theorem getRatio_zero_cost_counterexample:
  "getRatio (Item 5 0) = DBL_MAX \<and> Finite (getRatio (Item 5 0)) \<noteq> spec_ratio (Item 5 0)"
  by (simp add: getRatio_def spec_ratio_def)

text \<open>
  C10 (accesses in bounds): every read of \<open>sorted_items[depth]\<close> in \<open>iterative_bnb\<close> is
  inside the vector, also when the working list is empty. On the empty working list the
  first statement executed is the read of \<open>sorted_items[0]\<close> at \<open>begin\<close>, in both
  variants, whatever the budget.
\<close>

theorem iterative_bnb_empty_out_of_bounds:
  "iterative_bnb [] b = Inl OutOfBounds
   \<and> unbounded_iterative_bnb [] b = Some (Inl OutOfBounds)
   \<and> solve \<lparr>budget = 10, items = []\<rparr> = Inl OutOfBounds
   \<and> unbounded_solve \<lparr>budget = 10, items = []\<rparr> = Some (Inl OutOfBounds)"
  by (simp add: solver_defs)

end
